theory Spec2Isabelle
  imports Main "HOL-Library.Word"
begin

unbundle bit_operations_syntax

section \<open>Data model of \<open>eif_parse.c\<close>\<close>

type_synonym byte = "8 word"
type_synonym u16 = "16 word"
type_synonym u32 = "32 word"
type_synonym u64 = "64 word"

text \<open>
  Every way the program stops without finishing its work is a value of \<open>error\<close>, one
  constructor per place of the source:
  \<^item> \<open>OpenFailed\<close>: \<open>open\<close> returned a negative descriptor (line 166);
  \<^item> \<open>AllocFailed\<close>: \<open>malloc(EIF_HEADER_SIZE)\<close> returned \<open>NULL\<close> (line 172);
  \<^item> \<open>HeaderReadFailed\<close>: the first \<open>read\<close> did not return 548 (line 178);
  \<^item> \<open>TruncatedInput\<close>: \<open>assert(buf_len >= EIF_HEADER_SIZE)\<close> (line 54);
  \<^item> \<open>SectionHeaderAssert\<close>: \<open>assert(buf_len >= EIF_SECTION_HEADER_SIZE)\<close> (line 99);
  \<^item> \<open>TooManySections\<close>: \<open>assert(eif_header.section_cnt <= MAX_SECTIONS)\<close> (line 186);
  \<^item> \<open>SeekFailed\<close>: "Failed to offset to" (line 196);
  \<^item> \<open>TruncatedSectionHeader\<close>: "Failed to read section header" (line 202);
  \<^item> \<open>MetadataAllocFailed\<close>: "Failed to allocate memory for metadata" (line 220);
  \<^item> \<open>TruncatedMetadata\<close>: "Failed to read metadata" (line 226);
  \<^item> \<open>OutOfBounds\<close>: an access outside the object a pointer refers to, which C leaves
    undefined; the model makes it a result so that its absence can be proved.
\<close>

datatype error =
    OpenFailed
  | AllocFailed
  | HeaderReadFailed
  | TruncatedInput
  | SectionHeaderAssert
  | TooManySections
  | SeekFailed
  | TruncatedSectionHeader
  | MetadataAllocFailed
  | TruncatedMetadata
  | OutOfBounds

definition EIF_HEADER_SIZE :: nat where
  "EIF_HEADER_SIZE = 548"

definition EIF_SECTION_HEADER_SIZE :: nat where
  "EIF_SECTION_HEADER_SIZE = 12"

definition MAX_SECTIONS :: nat where
  "MAX_SECTIONS = 32"

text \<open>
  \<open>struct EifHeader\<close>. The arrays \<open>magic[4]\<close>, \<open>section_offsets[32]\<close> and
  \<open>section_sizes[32]\<close> are lists; \<open>wf_EifHeader\<close> says that they have the lengths the C
  type gives them.
\<close>

record EifHeader =
  magic :: "byte list"
  version :: u16
  flags :: u16
  default_memory :: u64
  default_cpus :: u64
  reserved :: u16
  section_cnt :: u16
  section_offsets :: "u64 list"
  section_sizes :: "u64 list"
  unused :: u32
  eif_crc32 :: u32

definition wf_EifHeader :: "EifHeader \<Rightarrow> bool" where
  "wf_EifHeader h \<longleftrightarrow>
     length (magic h) = 4 \<and> length (section_offsets h) = MAX_SECTIONS
     \<and> length (section_sizes h) = MAX_SECTIONS"

text \<open>
  \<open>struct EifSectionHeader\<close>. Its member \<open>flags\<close> is called \<open>section_flags\<close> here, the
  name \<open>flags\<close> being the file header's.
\<close>

record EifSectionHeader =
  section_type :: u16
  section_flags :: u16
  section_size :: u64

section \<open>Memory accesses\<close>

text \<open>
  A buffer is the list of its bytes and a pointer into it is an index. \<open>buf[i]\<close> and
  \<open>a[i] = v\<close> are checked, an index outside the object giving \<open>OutOfBounds\<close>.
\<close>

definition bind :: "error + 'a \<Rightarrow> ('a \<Rightarrow> error + 'b) \<Rightarrow> error + 'b" where
  "bind r f = (case r of Inl e \<Rightarrow> Inl e | Inr x \<Rightarrow> f x)"

definition load_at :: "'a list \<Rightarrow> nat \<Rightarrow> error + 'a" where
  "load_at xs i = (if i < length xs then Inr (xs ! i) else Inl OutOfBounds)"

definition store_at :: "'a list \<Rightarrow> nat \<Rightarrow> 'a \<Rightarrow> error + 'a list" where
  "store_at xs i v = (if i < length xs then Inr (xs[i := v]) else Inl OutOfBounds)"

section \<open>The byte-order macros\<close>

text \<open>
  \<open>BIG_ENDIAN_U16(buf)\<close>, \<open>BIG_ENDIAN_U32(buf)\<close> and \<open>BIG_ENDIAN_U64(buf)\<close>, with \<open>buf\<close>
  the buffer and the index the pointer has reached. The casts widen each byte without sign
  (\<open>ucast\<close>), \<open><<\<close> is \<open>push_bit\<close> and \<open>|\<close> is \<open>OR\<close>.
\<close>

definition BIG_ENDIAN_U16 :: "byte list \<Rightarrow> nat \<Rightarrow> error + u16" where
  "BIG_ENDIAN_U16 buf p =
     bind (load_at buf p) (\<lambda>b0.
     bind (load_at buf (p + 1)) (\<lambda>b1.
     Inr (push_bit 8 (ucast b0) OR ucast b1)))"

definition BIG_ENDIAN_U32 :: "byte list \<Rightarrow> nat \<Rightarrow> error + u32" where
  "BIG_ENDIAN_U32 buf p =
     bind (load_at buf p) (\<lambda>b0.
     bind (load_at buf (p + 1)) (\<lambda>b1.
     bind (load_at buf (p + 2)) (\<lambda>b2.
     bind (load_at buf (p + 3)) (\<lambda>b3.
     Inr (push_bit 24 (ucast b0) OR push_bit 16 (ucast b1)
          OR push_bit 8 (ucast b2) OR ucast b3)))))"

definition BIG_ENDIAN_U64 :: "byte list \<Rightarrow> nat \<Rightarrow> error + u64" where
  "BIG_ENDIAN_U64 buf p =
     bind (load_at buf p) (\<lambda>b0.
     bind (load_at buf (p + 1)) (\<lambda>b1.
     bind (load_at buf (p + 2)) (\<lambda>b2.
     bind (load_at buf (p + 3)) (\<lambda>b3.
     bind (load_at buf (p + 4)) (\<lambda>b4.
     bind (load_at buf (p + 5)) (\<lambda>b5.
     bind (load_at buf (p + 6)) (\<lambda>b6.
     bind (load_at buf (p + 7)) (\<lambda>b7.
     Inr (push_bit 56 (ucast b0) OR push_bit 48 (ucast b1)
          OR push_bit 40 (ucast b2) OR push_bit 32 (ucast b3)
          OR push_bit 24 (ucast b4) OR push_bit 16 (ucast b5)
          OR push_bit 8 (ucast b6) OR ucast b7)))))))))"

section \<open>\<open>parse_eif_header\<close>\<close>

text \<open>
  The function fills the structure its third argument points to, so the model takes the
  structure as it is before the call and returns it updated. \<open>set_magic\<close> is one
  assignment \<open>header->magic[k] = buf[k]\<close>; the two \<open>for\<close> loops are \<open>offsets_loop\<close> and
  \<open>sizes_loop\<close>, which return the advanced pointer with the structure.
\<close>

definition set_magic :: "byte list \<Rightarrow> nat \<Rightarrow> EifHeader \<Rightarrow> error + EifHeader" where
  "set_magic buf k header =
     bind (load_at buf k) (\<lambda>b.
     bind (store_at (magic header) k b) (\<lambda>m.
     Inr (header\<lparr>magic := m\<rparr>)))"

function offsets_loop :: "byte list \<Rightarrow> nat \<Rightarrow> nat \<Rightarrow> EifHeader \<Rightarrow> error + (nat \<times> EifHeader)" where
  "offsets_loop buf p i header =
     (if i < MAX_SECTIONS then
        (case BIG_ENDIAN_U64 buf p of
           Inl e \<Rightarrow> Inl e
         | Inr v \<Rightarrow>
             (case store_at (section_offsets header) i v of
                Inl e \<Rightarrow> Inl e
              | Inr xs \<Rightarrow> offsets_loop buf (p + 8) (i + 1) (header\<lparr>section_offsets := xs\<rparr>)))
      else Inr (p, header))"
  by pat_completeness auto
termination
  by (relation "measure (\<lambda>(buf, p, i, header). MAX_SECTIONS - i)") auto

function sizes_loop :: "byte list \<Rightarrow> nat \<Rightarrow> nat \<Rightarrow> EifHeader \<Rightarrow> error + (nat \<times> EifHeader)" where
  "sizes_loop buf p i header =
     (if i < MAX_SECTIONS then
        (case BIG_ENDIAN_U64 buf p of
           Inl e \<Rightarrow> Inl e
         | Inr v \<Rightarrow>
             (case store_at (section_sizes header) i v of
                Inl e \<Rightarrow> Inl e
              | Inr xs \<Rightarrow> sizes_loop buf (p + 8) (i + 1) (header\<lparr>section_sizes := xs\<rparr>)))
      else Inr (p, header))"
  by pat_completeness auto
termination
  by (relation "measure (\<lambda>(buf, p, i, header). MAX_SECTIONS - i)") auto

definition parse_eif_header :: "byte list \<Rightarrow> nat \<Rightarrow> EifHeader \<Rightarrow> error + EifHeader" where
  "parse_eif_header buf buf_len header =
     (if \<not> buf_len \<ge> EIF_HEADER_SIZE then Inl TruncatedInput
      else
        bind (set_magic buf 0 header) (\<lambda>header.
        bind (set_magic buf 1 header) (\<lambda>header.
        bind (set_magic buf 2 header) (\<lambda>header.
        bind (set_magic buf 3 header) (\<lambda>header.
        let p = 4 in
        bind (BIG_ENDIAN_U16 buf p) (\<lambda>v. let header = header\<lparr>version := v\<rparr>; p = p + 2 in
        bind (BIG_ENDIAN_U16 buf p) (\<lambda>v. let header = header\<lparr>flags := v\<rparr>; p = p + 2 in
        bind (BIG_ENDIAN_U64 buf p) (\<lambda>v. let header = header\<lparr>default_memory := v\<rparr>; p = p + 8 in
        bind (BIG_ENDIAN_U64 buf p) (\<lambda>v. let header = header\<lparr>default_cpus := v\<rparr>; p = p + 8 in
        bind (BIG_ENDIAN_U16 buf p) (\<lambda>v. let header = header\<lparr>reserved := v\<rparr>; p = p + 2 in
        bind (BIG_ENDIAN_U16 buf p) (\<lambda>v. let header = header\<lparr>section_cnt := v\<rparr>; p = p + 2 in
        bind (offsets_loop buf p 0 header) (\<lambda>(p, header).
        bind (sizes_loop buf p 0 header) (\<lambda>(p, header).
        bind (BIG_ENDIAN_U32 buf p) (\<lambda>v. let header = header\<lparr>unused := v\<rparr>; p = p + 4 in
        bind (BIG_ENDIAN_U32 buf p) (\<lambda>v. let header = header\<lparr>eif_crc32 := v\<rparr> in
        Inr header)))))))))))))))"

section \<open>\<open>parse_eif_section_header\<close>\<close>

definition parse_eif_section_header ::
    "byte list \<Rightarrow> nat \<Rightarrow> EifSectionHeader \<Rightarrow> error + EifSectionHeader" where
  "parse_eif_section_header buf buf_len header =
     (if \<not> buf_len \<ge> EIF_SECTION_HEADER_SIZE then Inl SectionHeaderAssert
      else
        let p = 0 in
        bind (BIG_ENDIAN_U16 buf p) (\<lambda>v. let header = header\<lparr>section_type := v\<rparr>; p = p + 2 in
        bind (BIG_ENDIAN_U16 buf p) (\<lambda>v. let header = header\<lparr>section_flags := v\<rparr>; p = p + 2 in
        bind (BIG_ENDIAN_U64 buf p) (\<lambda>v. let header = header\<lparr>section_size := v\<rparr> in
        Inr header))))"

section \<open>The file descriptor and the heap\<close>

text \<open>
  The program reads a regular file through \<open>lseek\<close> and \<open>read\<close>. A \<open>source\<close> is the
  open descriptor: the bytes of the file, the file position, the largest offset the file
  system lets \<open>lseek\<close> set, and the log of the calls made on the descriptor, in order.
\<close>

datatype syscall = Lseek u64 | Read nat

record source =
  contents :: "byte list"
  fpos :: nat
  seek_max :: int
  calls :: "syscall list"

text \<open>
  \<open>lseek(fd, section_offset, SEEK_SET)\<close>. The argument is converted to the signed
  \<open>off_t\<close>; POSIX fails with \<open>EINVAL\<close> when the resulting offset would be negative
  or beyond what the file system allows, returns \<open>(off_t) -1\<close> and leaves the position
  where it was. Otherwise the position is the argument, which is returned; a position past
  the end of the file is allowed. The result is the 64 bits of the \<open>off_t\<close>, as the
  cast \<open>(uint64_t) offset\<close> reads them.
\<close>

definition lseek :: "source \<Rightarrow> u64 \<Rightarrow> u64 \<times> source" where
  "lseek f off =
     (let f' = f\<lparr>calls := calls f @ [Lseek off]\<rparr> in
      if sint off < 0 \<or> seek_max f < sint off then (- 1, f')
      else (off, f'\<lparr>fpos := unat off\<rparr>))"

text \<open>
  \<open>read(fd, buf, count)\<close> on a regular file: the bytes from the file position on, at most
  \<open>count\<close> of them and fewer only at the end of the file, are written to the start of the
  buffer and the position moves past them. The result is their number, the buffer and the
  descriptor. A buffer with less room than \<open>count\<close> is \<open>OutOfBounds\<close>. One call
  transfers any number of bytes here; a system that bounds the transfer of one call (Linux
  at \<open>0x7ffff000\<close> bytes) differs for a metadata section of 2 GiB or more only.
\<close>

definition read_fd :: "source \<Rightarrow> byte list \<Rightarrow> nat \<Rightarrow> error + (int \<times> byte list \<times> source)" where
  "read_fd f buf count =
     (if length buf < count then Inl OutOfBounds
      else
        let bs = take count (drop (fpos f) (contents f));
            f' = f\<lparr>fpos := fpos f + length bs, calls := calls f @ [Read count]\<rparr>
        in Inr (int (length bs), bs @ drop (length bs) buf, f'))"

text \<open>
  What the C program leaves to its environment: which files \<open>open\<close> can open and their
  bytes, the largest offset \<open>lseek\<close> accepts, which requests \<open>malloc\<close> grants, the
  bytes found in fresh memory, and the indeterminate contents of the two structures that
  are declared without an initialiser (\<open>eif_header\<close>, line 159, and
  \<open>eif_section_header\<close>, line 190). Every theorem holds for all of them.
\<close>

record machine =
  files :: "string \<Rightarrow> byte list option"
  max_offset :: int
  heap_ok :: "nat \<Rightarrow> bool"
  heap_fill :: "nat \<Rightarrow> byte"
  stack_header :: EifHeader
  stack_section_header :: EifSectionHeader

definition malloc :: "machine \<Rightarrow> nat \<Rightarrow> byte list option" where
  "malloc m n = (if heap_ok m n then Some (map (heap_fill m) [0..<n]) else None)"

section \<open>\<open>parse_eif_file\<close>\<close>

text \<open>
  The state of the loop over the sections: the descriptor \<open>fd\<close>, the buffer \<open>buf\<close>,
  the pointer \<open>metadata\<close> (\<open>None\<close> is \<open>NULL\<close>), the section headers printed on the
  standard output by \<open>print_eif_section_header\<close>, and the size mismatches warned about
  on the standard error, each with the two sizes the message carries.

  \<open>exit(1)\<close> and a failed \<open>assert\<close> end the process: the result is then the \<open>error\<close>
  with the descriptor as the calls made so far left it, and nothing else.
\<close>

record walk_state =
  fd :: source
  buf :: "byte list"
  metadata :: "byte list option"
  printed :: "EifSectionHeader list"
  warnings :: "(u64 \<times> u64) list"

text \<open>
  Lines 218 to 231, the body of \<open>if (metadata == NULL && section_type == 5)\<close>.
  \<open>size\<close> is a 64-bit \<open>size_t\<close>, so \<open>section_size + 1\<close> wraps around, and
  \<open>(ssize_t) size\<close> is its signed reading.
\<close>

definition capture_metadata ::
    "machine \<Rightarrow> EifSectionHeader \<Rightarrow> walk_state \<Rightarrow> (error \<times> source) + walk_state" where
  "capture_metadata m eif_section_header st =
     (let size = section_size eif_section_header + 1 in
      case malloc m (unat size) of
        None \<Rightarrow> Inl (MetadataAllocFailed, fd st)
      | Some metadata0 \<Rightarrow>
          (case read_fd (fd st) metadata0 (unat size) of
             Inl e \<Rightarrow> Inl (e, fd st)
           | Inr (got, metadata1, f1) \<Rightarrow>
               if got \<noteq> sint size then Inl (TruncatedMetadata, f1)
               else
                 (case store_at metadata1 (unat (size - 1)) 0 of
                    Inl e \<Rightarrow> Inl (e, f1)
                  | Inr metadata2 \<Rightarrow> Inr (st\<lparr>fd := f1, metadata := Some metadata2\<rparr>))))"

text \<open>Lines 190 to 232, the body of the \<open>for\<close> loop, for the section of index \<open>i\<close>.\<close>

definition visit_section ::
    "machine \<Rightarrow> EifHeader \<Rightarrow> nat \<Rightarrow> walk_state \<Rightarrow> (error \<times> source) + walk_state" where
  "visit_section m eif_header i st =
     (case load_at (section_offsets eif_header) i of
        Inl e \<Rightarrow> Inl (e, fd st)
      | Inr section_offset \<Rightarrow>
          (case lseek (fd st) section_offset of
             (offset, f1) \<Rightarrow>
               if offset \<noteq> section_offset then Inl (SeekFailed, f1)
               else
                 (case read_fd f1 (buf st) EIF_SECTION_HEADER_SIZE of
                    Inl e \<Rightarrow> Inl (e, f1)
                  | Inr (got, buf1, f2) \<Rightarrow>
                      if got \<noteq> int EIF_SECTION_HEADER_SIZE
                      then Inl (TruncatedSectionHeader, f2)
                      else
                        (case parse_eif_section_header buf1 EIF_SECTION_HEADER_SIZE
                                (stack_section_header m) of
                           Inl e \<Rightarrow> Inl (e, f2)
                         | Inr eif_section_header \<Rightarrow>
                             (case load_at (section_sizes eif_header) i of
                                Inl e \<Rightarrow> Inl (e, f2)
                              | Inr declared \<Rightarrow>
                                  let st1 = st\<lparr>fd := f2, buf := buf1,
                                        printed := printed st @ [eif_section_header],
                                        warnings :=
                                          (if declared \<noteq> section_size eif_section_header
                                           then warnings st
                                             @ [(declared, section_size eif_section_header)]
                                           else warnings st)\<rparr>
                                  in
                                    if metadata st1 = None
                                       \<and> section_type eif_section_header = 5
                                    then capture_metadata m eif_section_header st1
                                    else Inr st1)))))"

text \<open>
  The loop \<open>for (int i = 0; i < eif_header.section_cnt; ++i)\<close>, from the index \<open>i\<close> on.
\<close>

function section_loop ::
    "machine \<Rightarrow> EifHeader \<Rightarrow> nat \<Rightarrow> walk_state \<Rightarrow> (error \<times> source) + walk_state" where
  "section_loop m eif_header i st =
     (if i < unat (section_cnt eif_header) then
        (case visit_section m eif_header i st of
           Inl e \<Rightarrow> Inl e
         | Inr st' \<Rightarrow> section_loop m eif_header (i + 1) st')
      else Inr st)"
  by pat_completeness auto
termination
  by (relation "measure (\<lambda>(m, eif_header, i, st). unat (section_cnt eif_header) - i)") auto

text \<open>
  Lines 186 to 233: the assertion on the number of sections and the loop. This is the
  walk over the sections of a decoded header.
\<close>

definition walk_sections ::
    "machine \<Rightarrow> EifHeader \<Rightarrow> walk_state \<Rightarrow> (error \<times> source) + walk_state" where
  "walk_sections m eif_header st =
     (if \<not> unat (section_cnt eif_header) \<le> MAX_SECTIONS then Inl (TooManySections, fd st)
      else section_loop m eif_header 0 st)"

text \<open>
  \<open>printf("%s\\n", metadata)\<close> prints the bytes before the first null byte.
\<close>

definition metadata_text :: "byte list \<Rightarrow> byte list" where
  "metadata_text md = takeWhile (\<lambda>b. b \<noteq> 0) md"

text \<open>
  The whole of \<open>parse_eif_file\<close>. A run that reaches the end gives the header printed by
  \<open>print_eif_header\<close>, the final state of the loop and the metadata text printed.
\<close>

definition parse_eif_file ::
    "machine \<Rightarrow> string \<Rightarrow>
       (error \<times> source option) + (EifHeader \<times> walk_state \<times> byte list option)" where
  "parse_eif_file m eif_path =
     (case files m eif_path of
        None \<Rightarrow> Inl (OpenFailed, None)
      | Some bytes \<Rightarrow>
          let f = \<lparr>contents = bytes, fpos = 0, seek_max = max_offset m, calls = []\<rparr> in
          (case malloc m EIF_HEADER_SIZE of
             None \<Rightarrow> Inl (AllocFailed, Some f)
           | Some buf0 \<Rightarrow>
               (case read_fd f buf0 EIF_HEADER_SIZE of
                  Inl e \<Rightarrow> Inl (e, Some f)
                | Inr (got, buf1, f1) \<Rightarrow>
                    if got \<noteq> int EIF_HEADER_SIZE then Inl (HeaderReadFailed, Some f1)
                    else
                      (case parse_eif_header buf1 EIF_HEADER_SIZE (stack_header m) of
                         Inl e \<Rightarrow> Inl (e, Some f1)
                       | Inr eif_header \<Rightarrow>
                           (case walk_sections m eif_header
                                   \<lparr>fd = f1, buf = buf1, metadata = None,
                                    printed = [], warnings = []\<rparr> of
                              Inl (e, f2) \<Rightarrow> Inl (e, Some f2)
                            | Inr st \<Rightarrow>
                                Inr (eif_header, st,
                                     map_option metadata_text (metadata st)))))))"

section \<open>Notions used to state the properties\<close>

text \<open>
  The definitions of this section are not part of the program. \<open>be_val\<close> is the number a
  sequence of bytes denotes when the most significant byte comes first; \<open>enc_u16\<close>,
  \<open>enc_u32\<close>, \<open>enc_u64\<close> and \<open>encode_header\<close> write a value back as bytes, most
  significant byte first, the fields of a header in the order of the file.
\<close>

definition be_val :: "byte list \<Rightarrow> nat" where
  "be_val bs = foldl (\<lambda>a b. 256 * a + unat b) 0 bs"

definition enc_u16 :: "u16 \<Rightarrow> byte list" where
  "enc_u16 w = [ucast (drop_bit 8 w), ucast w]"

definition enc_u32 :: "u32 \<Rightarrow> byte list" where
  "enc_u32 w = [ucast (drop_bit 24 w), ucast (drop_bit 16 w), ucast (drop_bit 8 w), ucast w]"

definition enc_u64 :: "u64 \<Rightarrow> byte list" where
  "enc_u64 w = [ucast (drop_bit 56 w), ucast (drop_bit 48 w), ucast (drop_bit 40 w),
                ucast (drop_bit 32 w), ucast (drop_bit 24 w), ucast (drop_bit 16 w),
                ucast (drop_bit 8 w), ucast w]"

definition encode_header :: "EifHeader \<Rightarrow> byte list" where
  "encode_header h =
     magic h @ enc_u16 (version h) @ enc_u16 (flags h) @ enc_u64 (default_memory h)
     @ enc_u64 (default_cpus h) @ enc_u16 (reserved h) @ enc_u16 (section_cnt h)
     @ concat (map enc_u64 (section_offsets h)) @ concat (map enc_u64 (section_sizes h))
     @ enc_u32 (unused h) @ enc_u32 (eif_crc32 h)"

text \<open>
  Closed forms of what the program computes when every access is inside the buffer, used
  in the proofs: the value of the three macros at an index, the header decoded from a
  buffer, the section header decoded from a buffer, and the file position at which a
  section header is read once the check on the result of \<open>lseek\<close> has passed.
\<close>

definition be16_at :: "byte list \<Rightarrow> nat \<Rightarrow> u16" where
  "be16_at bs p = push_bit 8 (ucast (bs ! p)) OR ucast (bs ! (p + 1))"

definition be32_at :: "byte list \<Rightarrow> nat \<Rightarrow> u32" where
  "be32_at bs p =
     push_bit 24 (ucast (bs ! p)) OR push_bit 16 (ucast (bs ! (p + 1)))
     OR push_bit 8 (ucast (bs ! (p + 2))) OR ucast (bs ! (p + 3))"

definition be64_at :: "byte list \<Rightarrow> nat \<Rightarrow> u64" where
  "be64_at bs p =
     push_bit 56 (ucast (bs ! p)) OR push_bit 48 (ucast (bs ! (p + 1)))
     OR push_bit 40 (ucast (bs ! (p + 2))) OR push_bit 32 (ucast (bs ! (p + 3)))
     OR push_bit 24 (ucast (bs ! (p + 4))) OR push_bit 16 (ucast (bs ! (p + 5)))
     OR push_bit 8 (ucast (bs ! (p + 6))) OR ucast (bs ! (p + 7))"

definition header_at :: "byte list \<Rightarrow> EifHeader" where
  "header_at bs =
     \<lparr>magic = [bs ! 0, bs ! 1, bs ! 2, bs ! 3],
      version = be16_at bs 4,
      flags = be16_at bs 6,
      default_memory = be64_at bs 8,
      default_cpus = be64_at bs 16,
      reserved = be16_at bs 24,
      section_cnt = be16_at bs 26,
      section_offsets = map (\<lambda>k. be64_at bs (28 + 8 * k)) [0..<32],
      section_sizes = map (\<lambda>k. be64_at bs (284 + 8 * k)) [0..<32],
      unused = be32_at bs 540,
      eif_crc32 = be32_at bs 544\<rparr>"

definition section_header_at :: "byte list \<Rightarrow> EifSectionHeader" where
  "section_header_at bs =
     \<lparr>section_type = be16_at bs 0, section_flags = be16_at bs 2, section_size = be64_at bs 4\<rparr>"

definition seek_pos :: "source \<Rightarrow> u64 \<Rightarrow> nat" where
  "seek_pos f off = (if sint off < 0 \<or> seek_max f < sint off then fpos f else unat off)"

text \<open>
  \<open>visited h i st\<close> is the state in which a successful pass through the body of the loop
  leaves the state \<open>st\<close>, in closed form. \<open>without_warnings\<close> forgets the warnings of an
  outcome, to compare two runs in everything else.
\<close>

definition visited :: "EifHeader \<Rightarrow> nat \<Rightarrow> walk_state \<Rightarrow> walk_state" where
  "visited h i st =
     (let off = section_offsets h ! i; f = fd st; p = seek_pos f off;
          hb = take 12 (drop p (contents f)); sh = section_header_at hb;
          n = unat (section_size sh);
          cap = (metadata st = None \<and> section_type sh = 5)
      in st\<lparr>fd := f\<lparr>fpos := (if cap then p + 12 + Suc n else p + 12),
                     calls := calls f @ [Lseek off, Read 12] @ (if cap then [Read (Suc n)] else [])\<rparr>,
             buf := hb @ drop 12 (buf st),
             metadata := (if cap then Some (take n (drop (p + 12) (contents f)) @ [0])
                          else metadata st),
             printed := printed st @ [sh],
             warnings := (if section_sizes h ! i \<noteq> section_size sh
                          then warnings st @ [(section_sizes h ! i, section_size sh)]
                          else warnings st)\<rparr>)"

definition without_warnings :: "(error \<times> source) + walk_state \<Rightarrow> (error \<times> source) + walk_state" where
  "without_warnings r = (case r of Inl e \<Rightarrow> Inl e | Inr st \<Rightarrow> Inr (st\<lparr>warnings := []\<rparr>))"

section \<open>Concrete inputs\<close>

text \<open>
  Two contents of a structure before it is filled, and the header of a small image:
  magic \<open>.eif\<close>, version 4, three sections at the offsets 548, 564 and 596.
\<close>

definition blank_header :: EifHeader where
  "blank_header =
     \<lparr>magic = replicate 4 0, version = 0, flags = 0, default_memory = 0, default_cpus = 0,
      reserved = 0, section_cnt = 0, section_offsets = replicate 32 0,
      section_sizes = replicate 32 0, unused = 0, eif_crc32 = 0\<rparr>"

definition junk_header :: EifHeader where
  "junk_header =
     \<lparr>magic = replicate 4 255, version = 7, flags = 9, default_memory = 11, default_cpus = 13,
      reserved = 15, section_cnt = 17, section_offsets = replicate 32 19,
      section_sizes = replicate 32 23, unused = 29, eif_crc32 = 31\<rparr>"

definition demo_header :: EifHeader where
  "demo_header =
     \<lparr>magic = [46, 101, 105, 102], version = 4, flags = 0, default_memory = 1073741824,
      default_cpus = 2, reserved = 0, section_cnt = 3,
      section_offsets = [548, 564, 596] @ replicate 29 0,
      section_sizes = [4, 10, 3] @ replicate 29 0, unused = 0, eif_crc32 = 3735928559\<rparr>"

definition demo_bytes :: "byte list" where
  "demo_bytes = encode_header demo_header"

text \<open>
  A header that no image should carry, with a magic other than \<open>.eif\<close> and 65535
  sections declared, and its 548 bytes.
\<close>

definition bad_header :: EifHeader where
  "bad_header =
     \<lparr>magic = [66, 65, 68, 33], version = 65535, flags = 258,
      default_memory = 72623859790382856, default_cpus = 1, reserved = 513,
      section_cnt = 65535, section_offsets = replicate 32 18446744073709551615,
      section_sizes = replicate 32 7, unused = 4294967295, eif_crc32 = 305419896\<rparr>"

definition bad_bytes :: "byte list" where
  "bad_bytes = encode_header bad_header"

text \<open>
  The image \<open>demo_image\<close>: the header above, then a kernel section of 4 bytes at 548, a
  metadata section of 20 bytes at 564 (the header declares 10) and a second metadata
  section of 3 bytes at 596.
\<close>

definition demo_body :: "byte list" where
  "demo_body =
     [0, 1, 0, 0, 0, 0, 0, 0, 0, 0, 0, 4] @ [1, 2, 3, 4]
     @ [0, 5, 0, 0, 0, 0, 0, 0, 0, 0, 0, 20]
     @ [123, 34, 97, 34, 58, 34, 100, 101, 109, 111, 45, 105, 109, 97, 103, 101, 34, 125, 32, 10]
     @ [0, 5, 0, 0, 0, 0, 0, 0, 0, 0, 0, 3] @ [97, 98, 99]"

definition demo_image :: "byte list" where
  "demo_image = demo_bytes @ demo_body"

text \<open>
  \<open>tail_image\<close> ends with its only section, a metadata section of 2 bytes.
  \<open>seek_image\<close> declares its only section at the offset \<open>0xFFFFFFFFFFFFFFFF\<close> and
  holds the 12 bytes of a section header at 548. In \<open>overlap_image\<close> the section visited
  first starts at 561, inside the section visited second, which starts at 548.
\<close>

definition tail_header :: EifHeader where
  "tail_header =
     \<lparr>magic = [46, 101, 105, 102], version = 4, flags = 0, default_memory = 0,
      default_cpus = 0, reserved = 0, section_cnt = 1,
      section_offsets = [548] @ replicate 31 0,
      section_sizes = [2] @ replicate 31 0, unused = 0, eif_crc32 = 0\<rparr>"

definition tail_bytes :: "byte list" where
  "tail_bytes = encode_header tail_header"

definition tail_image :: "byte list" where
  "tail_image = tail_bytes @ [0, 5, 0, 0, 0, 0, 0, 0, 0, 0, 0, 2] @ [123, 125]"

definition seek_header :: EifHeader where
  "seek_header =
     \<lparr>magic = [46, 101, 105, 102], version = 4, flags = 0, default_memory = 0,
      default_cpus = 0, reserved = 0, section_cnt = 1,
      section_offsets = [18446744073709551615] @ replicate 31 0,
      section_sizes = [0] @ replicate 31 0, unused = 0, eif_crc32 = 0\<rparr>"

definition seek_bytes :: "byte list" where
  "seek_bytes = encode_header seek_header"

definition seek_image :: "byte list" where
  "seek_image = seek_bytes @ [0, 1, 0, 0, 0, 0, 0, 0, 0, 0, 0, 0]"

definition overlap_header :: EifHeader where
  "overlap_header =
     \<lparr>magic = [46, 101, 105, 102], version = 4, flags = 0, default_memory = 0,
      default_cpus = 0, reserved = 0, section_cnt = 2,
      section_offsets = [561, 548] @ replicate 30 0,
      section_sizes = [1, 2] @ replicate 30 0, unused = 0, eif_crc32 = 0\<rparr>"

definition overlap_bytes :: "byte list" where
  "overlap_bytes = encode_header overlap_header"

definition overlap_image :: "byte list" where
  "overlap_image =
     overlap_bytes
     @ [0, 5, 0, 0, 0, 0, 0, 0, 0, 0, 0, 2] @ [104, 0]
     @ [0, 0, 0, 0, 0, 0, 0, 0, 0, 0, 1] @ [120, 33]"

text \<open>
  A machine on which the three images can be opened, and \<open>opened img\<close>, the state in
  which \<open>parse_eif_file\<close> enters the loop once the header of \<open>img\<close> is read.
\<close>

definition demo_machine :: machine where
  "demo_machine =
     \<lparr>files = (\<lambda>p. if p = ''demo.eif'' then Some demo_image
                   else if p = ''tail.eif'' then Some tail_image
                   else if p = ''seek.eif'' then Some seek_image
                   else None),
      max_offset = 9223372036854775807,
      heap_ok = (\<lambda>n. n \<le> 1048576),
      heap_fill = (\<lambda>k. 170),
      stack_header = junk_header,
      stack_section_header = \<lparr>section_type = 9, section_flags = 9, section_size = 9\<rparr>\<rparr>"

definition opened :: "byte list \<Rightarrow> walk_state" where
  "opened img =
     \<lparr>fd = \<lparr>contents = img, fpos = 548, seek_max = 9223372036854775807,
             calls = [Read 548]\<rparr>,
      buf = take 548 img, metadata = None, printed = [], warnings = []\<rparr>"

text \<open>The states in which the loop ends on these inputs.\<close>

definition demo_final :: walk_state where
  "demo_final =
     \<lparr>fd = \<lparr>contents = demo_image, fpos = 608, seek_max = 9223372036854775807,
             calls = [Read 548, Lseek 548, Read 12, Lseek 564, Read 12, Read 21,
                      Lseek 596, Read 12]\<rparr>,
      buf = [0, 5, 0, 0, 0, 0, 0, 0, 0, 0, 0, 3] @ drop 12 demo_bytes,
      metadata = Some [123, 34, 97, 34, 58, 34, 100, 101, 109, 111, 45, 105, 109, 97, 103,
                       101, 34, 125, 32, 10, 0],
      printed = [\<lparr>section_type = 1, section_flags = 0, section_size = 4\<rparr>,
                 \<lparr>section_type = 5, section_flags = 0, section_size = 20\<rparr>,
                 \<lparr>section_type = 5, section_flags = 0, section_size = 3\<rparr>],
      warnings = [(10, 20)]\<rparr>"

definition demo_final_b :: walk_state where
  "demo_final_b =
     \<lparr>fd = \<lparr>contents = demo_image[596 := 77], fpos = 608,
             seek_max = 9223372036854775807,
             calls = [Read 548, Lseek 548, Read 12, Lseek 564, Read 12, Read 21,
                      Lseek 596, Read 12]\<rparr>,
      buf = [77, 5, 0, 0, 0, 0, 0, 0, 0, 0, 0, 3] @ drop 12 demo_bytes,
      metadata = Some [123, 34, 97, 34, 58, 34, 100, 101, 109, 111, 45, 105, 109, 97, 103,
                       101, 34, 125, 32, 10, 0],
      printed = [\<lparr>section_type = 1, section_flags = 0, section_size = 4\<rparr>,
                 \<lparr>section_type = 5, section_flags = 0, section_size = 20\<rparr>,
                 \<lparr>section_type = 19717, section_flags = 0, section_size = 3\<rparr>],
      warnings = [(10, 20)]\<rparr>"

definition seek_final :: walk_state where
  "seek_final =
     \<lparr>fd = \<lparr>contents = seek_image, fpos = 560, seek_max = 9223372036854775807,
             calls = [Read 548, Lseek 18446744073709551615, Read 12]\<rparr>,
      buf = [0, 1, 0, 0, 0, 0, 0, 0, 0, 0, 0, 0] @ drop 12 seek_bytes,
      metadata = None,
      printed = [\<lparr>section_type = 1, section_flags = 0, section_size = 0\<rparr>],
      warnings = []\<rparr>"

definition overlap_final_a :: walk_state where
  "overlap_final_a =
     \<lparr>fd = \<lparr>contents = overlap_image, fpos = 563, seek_max = 9223372036854775807,
             calls = [Read 548, Lseek 561, Read 12, Lseek 548, Read 12, Read 3]\<rparr>,
      buf = [0, 5, 0, 0, 0, 0, 0, 0, 0, 0, 0, 2] @ drop 12 overlap_bytes,
      metadata = Some [104, 0, 0],
      printed = [\<lparr>section_type = 0, section_flags = 0, section_size = 1\<rparr>,
                 \<lparr>section_type = 5, section_flags = 0, section_size = 2\<rparr>],
      warnings = []\<rparr>"

definition overlap_final_b :: walk_state where
  "overlap_final_b =
     \<lparr>fd = \<lparr>contents = overlap_image[562 := 5], fpos = 560,
             seek_max = 9223372036854775807,
             calls = [Read 548, Lseek 561, Read 12, Read 2, Lseek 548, Read 12]\<rparr>,
      buf = [0, 5, 0, 0, 0, 0, 0, 0, 0, 0, 0, 2] @ drop 12 overlap_bytes,
      metadata = Some [120, 0],
      printed = [\<lparr>section_type = 5, section_flags = 0, section_size = 1\<rparr>,
                 \<lparr>section_type = 5, section_flags = 0, section_size = 2\<rparr>],
      warnings = []\<rparr>"

section \<open>Decoding the header: lemmas\<close>

declare offsets_loop.simps [simp del] sizes_loop.simps [simp del] section_loop.simps [simp del]

subsection \<open>checked reads succeed inside the buffer\<close>

lemma bind_Inr [simp]: "bind (Inr x) f = f x"
  by (simp add: bind_def)

lemma bind_Inl [simp]: "bind (Inl e) f = Inl e"
  by (simp add: bind_def)

lemma load_at_in [simp]: "i < length xs \<Longrightarrow> load_at xs i = Inr (xs ! i)"
  by (simp add: load_at_def)

lemma store_at_in [simp]: "i < length xs \<Longrightarrow> store_at xs i v = Inr (xs[i := v])"
  by (simp add: store_at_def)

lemma BIG_ENDIAN_U16_in: "p + 2 \<le> length bs \<Longrightarrow> BIG_ENDIAN_U16 bs p = Inr (be16_at bs p)"
  by (simp add: BIG_ENDIAN_U16_def be16_at_def)

lemma BIG_ENDIAN_U32_in: "p + 4 \<le> length bs \<Longrightarrow> BIG_ENDIAN_U32 bs p = Inr (be32_at bs p)"
  by (simp add: BIG_ENDIAN_U32_def be32_at_def)

lemma BIG_ENDIAN_U64_in: "p + 8 \<le> length bs \<Longrightarrow> BIG_ENDIAN_U64 bs p = Inr (be64_at bs p)"
  by (simp add: BIG_ENDIAN_U64_def be64_at_def)

lemma set_magic_in:
  "k < length bs \<Longrightarrow> k < length (magic h) \<Longrightarrow>
   set_magic bs k h = Inr (h\<lparr>magic := (magic h)[k := bs ! k]\<rparr>)"
  by (simp add: set_magic_def)

lemma offsets_loop_in:
  "i \<le> 32 \<Longrightarrow> length (section_offsets h) = 32 \<Longrightarrow> p + 8 * (32 - i) \<le> length bs \<Longrightarrow>
   offsets_loop bs p i h =
     Inr (p + 8 * (32 - i),
          h\<lparr>section_offsets :=
              take i (section_offsets h) @ map (\<lambda>k. be64_at bs (p + 8 * (k - i))) [i..<32]\<rparr>)"
proof (induction bs p i h rule: offsets_loop.induct)
  case (1 bs p i h)
  show ?case
  proof (cases "i < 32")
    case False
    with "1.prems" have "i = 32" by simp
    then show ?thesis using "1.prems" by (subst offsets_loop.simps) (simp add: MAX_SECTIONS_def)
  next
    case True
    let ?v = "be64_at bs p"
    let ?h = "h\<lparr>section_offsets := (section_offsets h)[i := ?v]\<rparr>"
    have rd: "BIG_ENDIAN_U64 bs p = Inr ?v"
      using True "1.prems" by (intro BIG_ENDIAN_U64_in) simp
    have st: "store_at (section_offsets h) i ?v = Inr ((section_offsets h)[i := ?v])"
      using True "1.prems" by simp
    have ih: "offsets_loop bs (p + 8) (i + 1) ?h =
        Inr (p + 8 + 8 * (32 - (i + 1)),
             ?h\<lparr>section_offsets := take (i + 1) (section_offsets ?h)
                 @ map (\<lambda>k. be64_at bs (p + 8 + 8 * (k - (i + 1)))) [i + 1..<32]\<rparr>)"
      using True "1.prems" by (intro "1.IH" [OF _ rd st]) (simp_all add: MAX_SECTIONS_def)
    have m: "map (\<lambda>k. be64_at bs (p + 8 + 8 * (k - (i + 1)))) [i + 1..<32]
           = map (\<lambda>k. be64_at bs (p + 8 * (k - i))) [i + 1..<32]"
      by (rule map_cong) (auto simp: algebra_simps)
    have u: "[i..<32] = i # [i + 1..<32]"
      using True by (simp add: upt_conv_Cons)
    have t: "take (i + 1) ((section_offsets h)[i := ?v]) = take i (section_offsets h) @ [?v]"
      using True "1.prems" by (simp add: take_Suc_conv_app_nth)
    have p: "p + 8 + 8 * (32 - (i + 1)) = p + 8 * (32 - i)"
      using True by simp
    have "offsets_loop bs p i h = offsets_loop bs (p + 8) (i + 1) ?h"
      using True by (subst offsets_loop.simps) (simp add: MAX_SECTIONS_def rd st)
    also note ih
    also have "Inr (p + 8 + 8 * (32 - (i + 1)),
             ?h\<lparr>section_offsets := take (i + 1) (section_offsets ?h)
                 @ map (\<lambda>k. be64_at bs (p + 8 + 8 * (k - (i + 1)))) [i + 1..<32]\<rparr>)
         = Inr (p + 8 * (32 - i),
          h\<lparr>section_offsets :=
              take i (section_offsets h) @ map (\<lambda>k. be64_at bs (p + 8 * (k - i))) [i..<32]\<rparr>)"
      unfolding m u p using t by simp
    finally show ?thesis .
  qed
qed

lemma sizes_loop_in:
  "i \<le> 32 \<Longrightarrow> length (section_sizes h) = 32 \<Longrightarrow> p + 8 * (32 - i) \<le> length bs \<Longrightarrow>
   sizes_loop bs p i h =
     Inr (p + 8 * (32 - i),
          h\<lparr>section_sizes :=
              take i (section_sizes h) @ map (\<lambda>k. be64_at bs (p + 8 * (k - i))) [i..<32]\<rparr>)"
proof (induction bs p i h rule: sizes_loop.induct)
  case (1 bs p i h)
  show ?case
  proof (cases "i < 32")
    case False
    with "1.prems" have "i = 32" by simp
    then show ?thesis using "1.prems" by (subst sizes_loop.simps) (simp add: MAX_SECTIONS_def)
  next
    case True
    let ?v = "be64_at bs p"
    let ?h = "h\<lparr>section_sizes := (section_sizes h)[i := ?v]\<rparr>"
    have rd: "BIG_ENDIAN_U64 bs p = Inr ?v"
      using True "1.prems" by (intro BIG_ENDIAN_U64_in) simp
    have st: "store_at (section_sizes h) i ?v = Inr ((section_sizes h)[i := ?v])"
      using True "1.prems" by simp
    have ih: "sizes_loop bs (p + 8) (i + 1) ?h =
        Inr (p + 8 + 8 * (32 - (i + 1)),
             ?h\<lparr>section_sizes := take (i + 1) (section_sizes ?h)
                 @ map (\<lambda>k. be64_at bs (p + 8 + 8 * (k - (i + 1)))) [i + 1..<32]\<rparr>)"
      using True "1.prems" by (intro "1.IH" [OF _ rd st]) (simp_all add: MAX_SECTIONS_def)
    have m: "map (\<lambda>k. be64_at bs (p + 8 + 8 * (k - (i + 1)))) [i + 1..<32]
           = map (\<lambda>k. be64_at bs (p + 8 * (k - i))) [i + 1..<32]"
      by (rule map_cong) (auto simp: algebra_simps)
    have u: "[i..<32] = i # [i + 1..<32]"
      using True by (simp add: upt_conv_Cons)
    have t: "take (i + 1) ((section_sizes h)[i := ?v]) = take i (section_sizes h) @ [?v]"
      using True "1.prems" by (simp add: take_Suc_conv_app_nth)
    have p: "p + 8 + 8 * (32 - (i + 1)) = p + 8 * (32 - i)"
      using True by simp
    have "sizes_loop bs p i h = sizes_loop bs (p + 8) (i + 1) ?h"
      using True by (subst sizes_loop.simps) (simp add: MAX_SECTIONS_def rd st)
    also note ih
    also have "Inr (p + 8 + 8 * (32 - (i + 1)),
             ?h\<lparr>section_sizes := take (i + 1) (section_sizes ?h)
                 @ map (\<lambda>k. be64_at bs (p + 8 + 8 * (k - (i + 1)))) [i + 1..<32]\<rparr>)
         = Inr (p + 8 * (32 - i),
          h\<lparr>section_sizes :=
              take i (section_sizes h) @ map (\<lambda>k. be64_at bs (p + 8 * (k - i))) [i..<32]\<rparr>)"
      unfolding m u p using t by simp
    finally show ?thesis .
  qed
qed


lemma upd4: "length m = 4 \<Longrightarrow> m[0 := a, Suc 0 := b, 2 := c, 3 := d] = [a, b, c, d]"
  by (rule nth_equalityI) (auto simp: nth_list_update less_Suc_eq numeral_eq_Suc)

lemma parse_eif_header_in:
  assumes wf: "wf_EifHeader h0" and n: "548 \<le> n" and len: "548 \<le> length bs"
  shows "parse_eif_header bs n h0 = Inr (header_at bs)"
proof -
  have m: "length (magic h0) = 4" and o: "length (section_offsets h0) = 32"
    and s: "length (section_sizes h0) = 32"
    using wf by (simp_all add: wf_EifHeader_def MAX_SECTIONS_def)
  have ne: "bs \<noteq> []" "magic h0 \<noteq> []"
    using len m by auto
  show ?thesis
    using n len m o s ne
    by (simp add: parse_eif_header_def EIF_HEADER_SIZE_def set_magic_in BIG_ENDIAN_U16_in
        BIG_ENDIAN_U32_in BIG_ENDIAN_U64_in offsets_loop_in sizes_loop_in upd4 header_at_def)
qed


subsection \<open>the value of the macros\<close>

lemma or_push_nat: "y < 2 ^ k \<Longrightarrow> push_bit k (x::nat) OR y = 2 ^ k * x + y"
proof -
  assume "y < 2 ^ k"
  then have y: "take_bit k y = y" by (rule take_bit_nat_eq_self)
  have "push_bit k x AND take_bit k y = 0"
    by (rule bit_eqI) (auto simp: bit_simps)
  then have "push_bit k x AND y = 0" using y by simp
  then have "push_bit k x + y = push_bit k x OR y" by (rule disjunctive_add_eq_or)
  then have "push_bit k x OR y = push_bit k x + y" by (rule sym)
  also have "\<dots> = 2 ^ k * x + y" by (simp add: push_bit_eq_mult)
  finally show ?thesis .
qed

lemma unat_byte_lt: "unat (b::byte) < 256"
  using unsigned_less [of b] by simp

lemma unat_push_byte:
  fixes b :: byte
  assumes k: "k + 8 \<le> LENGTH('a::len)"
  shows "unat (push_bit k (ucast b) :: 'a word) = push_bit k (unat b)"
proof -
  have "unat b < 2 ^ 8" using unat_byte_lt [of b] by simp
  also have "(2::nat) ^ 8 \<le> 2 ^ LENGTH('a)" using k by (intro power_increasing) auto
  finally have ub: "unat b < 2 ^ LENGTH('a)" .
  have "push_bit k (unat b) < push_bit k (2 ^ 8)"
    using unat_byte_lt [of b] by (simp add: push_bit_eq_mult)
  also have "\<dots> = (2::nat) ^ (k + 8)" by (simp add: push_bit_eq_mult power_add)
  also have "\<dots> \<le> 2 ^ LENGTH('a)" using k by (intro power_increasing) auto
  finally have lt: "push_bit k (unat b) < 2 ^ LENGTH('a)" .
  have "unat (push_bit k (ucast b) :: 'a word)
        = take_bit LENGTH('a) (push_bit k (take_bit LENGTH('a) (unat b)))"
    by (simp only: unsigned_push_bit_eq unsigned_ucast_eq)
  also have "\<dots> = take_bit LENGTH('a) (push_bit k (unat b))"
    using ub by (simp only: take_bit_nat_eq_self)
  also have "\<dots> = push_bit k (unat b)"
    using lt by (simp only: take_bit_nat_eq_self)
  finally show ?thesis .
qed

lemma unat_ucast_byte:
  fixes b :: byte
  assumes "8 \<le> LENGTH('a::len)"
  shows "unat (ucast b :: 'a word) = unat b"
  using unat_push_byte [of 0 b, where 'a = 'a] assms by simp

lemma be_val_2: "be_val [a, b] = 256 * unat a + unat b"
  by (simp add: be_val_def)

lemma be_val_4: "be_val [a, b, c, d] = 256 * (256 * (256 * unat a + unat b) + unat c) + unat d"
  by (simp add: be_val_def)

lemma be_val_8:
  "be_val [a, b, c, d, e, f, g, h] =
     256 * (256 * (256 * (256 * (256 * (256 * (256 * unat a + unat b) + unat c) + unat d)
       + unat e) + unat f) + unat g) + unat h"
  by (simp add: be_val_def)

lemma take_drop_2:
  "p + 2 \<le> length xs \<Longrightarrow> take 2 (drop p xs) = [xs ! p, xs ! (p + 1)]"
  by (simp add: numeral_eq_Suc take_Suc_conv_app_nth)

lemma take_drop_4:
  "p + 4 \<le> length xs \<Longrightarrow>
   take 4 (drop p xs) = [xs ! p, xs ! (p + 1), xs ! (p + 2), xs ! (p + 3)]"
  by (simp add: numeral_eq_Suc take_Suc_conv_app_nth)

lemma take_4: "4 \<le> length xs \<Longrightarrow> take 4 xs = [xs ! 0, xs ! 1, xs ! 2, xs ! 3]"
  using take_drop_4 [of 0 xs] by (simp del: add_2_eq_Suc add_2_eq_Suc')

lemma take_drop_8:
  "p + 8 \<le> length xs \<Longrightarrow>
   take 8 (drop p xs) = [xs ! p, xs ! (p + 1), xs ! (p + 2), xs ! (p + 3),
                         xs ! (p + 4), xs ! (p + 5), xs ! (p + 6), xs ! (p + 7)]"
  by (simp add: numeral_eq_Suc take_Suc_conv_app_nth)

lemma unat_be16_at:
  assumes "p + 2 \<le> length bs"
  shows "unat (be16_at bs p) = be_val (take 2 (drop p bs))"
proof -
  note b = unat_byte_lt [of "bs ! p"] unat_byte_lt [of "bs ! (p + 1)"]
  have "unat (be16_at bs p) = push_bit 8 (unat (bs ! p)) OR unat (bs ! (p + 1))"
    by (simp add: be16_at_def unsigned_or_eq unat_push_byte unat_ucast_byte)
  also have "\<dots> = 256 * unat (bs ! p) + unat (bs ! (p + 1))"
    using b by (simp add: or_push_nat)
  finally show ?thesis
    using assms by (simp add: take_drop_2 be_val_2)
qed

lemma unat_be32_at:
  assumes "p + 4 \<le> length bs"
  shows "unat (be32_at bs p) = be_val (take 4 (drop p bs))"
proof -
  note b = unat_byte_lt [of "bs ! p"] unat_byte_lt [of "bs ! (p + 1)"]
    unat_byte_lt [of "bs ! (p + 2)"] unat_byte_lt [of "bs ! (p + 3)"]
  have "unat (be32_at bs p) =
      push_bit 24 (unat (bs ! p)) OR push_bit 16 (unat (bs ! (p + 1)))
      OR push_bit 8 (unat (bs ! (p + 2))) OR unat (bs ! (p + 3))"
    by (simp add: be32_at_def unsigned_or_eq unat_push_byte unat_ucast_byte)
  also have "\<dots> = 256 * (256 * (256 * unat (bs ! p) + unat (bs ! (p + 1)))
      + unat (bs ! (p + 2))) + unat (bs ! (p + 3))"
    using b by (simp add: or_push_nat)
  finally show ?thesis
    using assms by (simp add: take_drop_4 be_val_4)
qed

lemma unat_be64_at:
  assumes "p + 8 \<le> length bs"
  shows "unat (be64_at bs p) = be_val (take 8 (drop p bs))"
proof -
  note b = unat_byte_lt [of "bs ! p"] unat_byte_lt [of "bs ! (p + 1)"]
    unat_byte_lt [of "bs ! (p + 2)"] unat_byte_lt [of "bs ! (p + 3)"]
    unat_byte_lt [of "bs ! (p + 4)"] unat_byte_lt [of "bs ! (p + 5)"]
    unat_byte_lt [of "bs ! (p + 6)"] unat_byte_lt [of "bs ! (p + 7)"]
  have "unat (be64_at bs p) =
      push_bit 56 (unat (bs ! p)) OR push_bit 48 (unat (bs ! (p + 1)))
      OR push_bit 40 (unat (bs ! (p + 2))) OR push_bit 32 (unat (bs ! (p + 3)))
      OR push_bit 24 (unat (bs ! (p + 4))) OR push_bit 16 (unat (bs ! (p + 5)))
      OR push_bit 8 (unat (bs ! (p + 6))) OR unat (bs ! (p + 7))"
    by (simp add: be64_at_def unsigned_or_eq unat_push_byte unat_ucast_byte)
  also have "\<dots> = 256 * (256 * (256 * (256 * (256 * (256 * (256 * unat (bs ! p)
      + unat (bs ! (p + 1))) + unat (bs ! (p + 2))) + unat (bs ! (p + 3)))
      + unat (bs ! (p + 4))) + unat (bs ! (p + 5))) + unat (bs ! (p + 6))) + unat (bs ! (p + 7))"
    using b by (simp add: or_push_nat)
  finally show ?thesis
    using assms by (simp add: take_drop_8 be_val_8)
qed

subsection \<open>encoding what was decoded\<close>

lemma enc_u16_be16_at:
  "p + 2 \<le> length bs \<Longrightarrow> enc_u16 (be16_at bs p) = take 2 (drop p bs)"
  unfolding take_drop_2 enc_u16_def be16_at_def list.inject
  by (intro conjI refl; rule bit_word_eqI) (auto simp: bit_simps dest: bit_imp_le_length)

lemma enc_u32_be32_at:
  "p + 4 \<le> length bs \<Longrightarrow> enc_u32 (be32_at bs p) = take 4 (drop p bs)"
  unfolding take_drop_4 enc_u32_def be32_at_def list.inject
  by (intro conjI refl; rule bit_word_eqI) (auto simp: bit_simps dest: bit_imp_le_length)

lemma enc_u64_be64_at:
  "p + 8 \<le> length bs \<Longrightarrow> enc_u64 (be64_at bs p) = take 8 (drop p bs)"
  unfolding take_drop_8 enc_u64_def be64_at_def list.inject
  by (intro conjI refl; rule bit_word_eqI) (auto simp: bit_simps dest: bit_imp_le_length)


lemma concat_enc_u64:
  "q + 8 * n \<le> length bs \<Longrightarrow>
   concat (map enc_u64 (map (\<lambda>k. be64_at bs (q + 8 * k)) [0..<n])) = take (8 * n) (drop q bs)"
proof (induction n)
  case 0
  then show ?case by simp
next
  case (Suc n)
  have "take (8 * Suc n) (drop q bs) = take (8 * n + 8) (drop q bs)"
    by (simp add: add.commute)
  also have "\<dots> = take (8 * n) (drop q bs) @ take 8 (drop (q + 8 * n) bs)"
    unfolding take_add drop_drop by (simp add: add.commute)
  finally show ?case
    using Suc by (simp add: enc_u64_be64_at)
qed

lemma take_chain: "q = p + k \<Longrightarrow> take k (drop p xs) @ drop q xs = drop p xs"
  by (simp add: add.commute flip: drop_drop)

lemma encode_header_at:
  assumes len: "length bs = 548"
  shows "encode_header (header_at bs) = bs"
proof -
  have o: "concat (map enc_u64 (map (\<lambda>k. be64_at bs (28 + 8 * k)) [0..<32]))
           = take 256 (drop 28 bs)"
    using concat_enc_u64 [of 28 32 bs] len by simp
  have s: "concat (map enc_u64 (map (\<lambda>k. be64_at bs (284 + 8 * k)) [0..<32]))
           = take 256 (drop 284 bs)"
    using concat_enc_u64 [of 284 32 bs] len by simp
  have m: "[bs ! 0, bs ! 1, bs ! 2, bs ! 3] = take 4 (drop 0 bs)"
    using take_4 [of bs] len by simp
  have "encode_header (header_at bs) =
      take 4 (drop 0 bs) @ take 2 (drop 4 bs) @ take 2 (drop 6 bs) @ take 8 (drop 8 bs)
      @ take 8 (drop 16 bs) @ take 2 (drop 24 bs) @ take 2 (drop 26 bs)
      @ take 256 (drop 28 bs) @ take 256 (drop 284 bs) @ take 4 (drop 540 bs)
      @ take 4 (drop 544 bs) @ drop 548 bs"
    unfolding encode_header_def header_at_def EifHeader.simps o s m
    using len by (simp add: enc_u16_be16_at enc_u32_be32_at enc_u64_be64_at)
  also have "\<dots> = drop 0 bs"
    by (simp only: take_chain)
  finally show ?thesis by simp
qed

lemma nth_of_take_eq:
  "take n xs = take n ys \<Longrightarrow> i < n \<Longrightarrow> xs ! i = ys ! i"
  by (metis nth_take)

lemma header_at_cong:
  assumes eq: "take 548 xs = take 548 ys"
  shows "header_at xs = header_at ys"
proof -
  note nth = nth_of_take_eq [OF eq]
  have b16: "\<And>p. p + 2 \<le> 548 \<Longrightarrow> be16_at xs p = be16_at ys p"
    by (simp add: be16_at_def nth)
  have b32: "\<And>p. p + 4 \<le> 548 \<Longrightarrow> be32_at xs p = be32_at ys p"
    by (simp add: be32_at_def nth)
  have b64: "\<And>p. p + 8 \<le> 548 \<Longrightarrow> be64_at xs p = be64_at ys p"
    by (simp add: be64_at_def nth)
  have o: "map (\<lambda>k. be64_at xs (28 + 8 * k)) [0..<32] = map (\<lambda>k. be64_at ys (28 + 8 * k)) [0..<32]"
    by (rule map_cong [OF refl]) (simp add: b64)
  have s: "map (\<lambda>k. be64_at xs (284 + 8 * k)) [0..<32] = map (\<lambda>k. be64_at ys (284 + 8 * k)) [0..<32]"
    by (rule map_cong [OF refl]) (simp add: b64)
  show ?thesis
    unfolding header_at_def o s by (simp add: b16 b32 b64 nth)
qed

lemma parse_eif_section_header_in:
  "12 \<le> n \<Longrightarrow> 12 \<le> length bs \<Longrightarrow>
   parse_eif_section_header bs n s0 = Inr (section_header_at bs)"
  unfolding parse_eif_section_header_def Let_def
  by (simp add: EIF_SECTION_HEADER_SIZE_def BIG_ENDIAN_U16_in BIG_ENDIAN_U64_in
      section_header_at_def del: add_2_eq_Suc add_2_eq_Suc')

lemma header_at_offsets:
  "i < 32 \<Longrightarrow> section_offsets (header_at bs) ! i = be64_at bs (28 + 8 * i)"
  unfolding header_at_def EifHeader.simps by (simp only: nth_map_upt) simp

lemma header_at_sizes:
  "i < 32 \<Longrightarrow> section_sizes (header_at bs) ! i = be64_at bs (284 + 8 * i)"
  unfolding header_at_def EifHeader.simps by (simp only: nth_map_upt) simp

lemma wf_header_at: "wf_EifHeader (header_at bs)"
  by (simp add: wf_EifHeader_def header_at_def MAX_SECTIONS_def)

lemma length_concat_enc_u64: "length (concat (map enc_u64 xs)) = 8 * length xs"
  by (induction xs) (simp_all add: enc_u64_def)

lemma length_encode_header: "wf_EifHeader h \<Longrightarrow> length (encode_header h) = 548"
  by (simp add: encode_header_def wf_EifHeader_def MAX_SECTIONS_def length_concat_enc_u64
      enc_u16_def enc_u32_def enc_u64_def)

lemma wf_blank_header: "wf_EifHeader blank_header"
  by (simp add: wf_EifHeader_def blank_header_def MAX_SECTIONS_def)

lemma wf_junk_header: "wf_EifHeader junk_header"
  by (simp add: wf_EifHeader_def junk_header_def MAX_SECTIONS_def)

lemma wf_demo_header: "wf_EifHeader demo_header"
  by (simp add: wf_EifHeader_def demo_header_def MAX_SECTIONS_def)

lemma length_demo_bytes: "length demo_bytes = 548"
  unfolding demo_bytes_def using wf_demo_header by (rule length_encode_header)

subsection \<open>decoding what was encoded\<close>

lemma length_enc [simp]:
  "length (enc_u16 a) = 2" "length (enc_u32 b) = 4" "length (enc_u64 c) = 8"
  by (simp_all add: enc_u16_def enc_u32_def enc_u64_def)

lemma bit_byte_of:
  "j < 8 \<Longrightarrow> bit (ucast (drop_bit k (v::'a::len word)) :: byte) j = bit v (k + j)"
  by (simp add: bit_simps)

lemma bit_eq_from_byte:
  fixes v w :: "'a::len word"
  assumes e: "(ucast (drop_bit k v) :: byte) = ucast (drop_bit k w)"
    and k: "k \<le> n" and j: "n - k < 8"
  shows "bit v n = bit w n"
proof -
  have n: "k + (n - k) = n" using k by simp
  have "bit v (k + (n - k)) = bit (ucast (drop_bit k v) :: byte) (n - k)"
    using j by (rule bit_byte_of [symmetric])
  also have "\<dots> = bit (ucast (drop_bit k w) :: byte) (n - k)"
    by (simp only: e)
  also have "\<dots> = bit w (k + (n - k))"
    using j by (rule bit_byte_of)
  finally show ?thesis unfolding n .
qed

lemma enc_u16_inj: "enc_u16 v = enc_u16 w \<Longrightarrow> v = w"
proof (rule bit_word_eqI)
  fix n
  assume a: "enc_u16 v = enc_u16 w" and "n < LENGTH(16)"
  then have n: "n < 16" by simp
  from a have e8: "(ucast (drop_bit 8 v) :: byte) = ucast (drop_bit 8 w)"
    unfolding enc_u16_def list.inject by (elim conjE)
  from a have "(ucast v :: byte) = ucast w"
    unfolding enc_u16_def list.inject by (elim conjE)
  then have e0: "(ucast (drop_bit 0 v) :: byte) = ucast (drop_bit 0 w)"
    by simp
  from n consider "0 \<le> n" "n - 0 < 8" | "8 \<le> n" "n - 8 < 8" by linarith
  then show "bit v n = bit w n"
    by cases (erule (1) bit_eq_from_byte [OF e0] bit_eq_from_byte [OF e8])+
qed

lemma enc_u32_inj: "enc_u32 v = enc_u32 w \<Longrightarrow> v = w"
proof (rule bit_word_eqI)
  fix n
  assume a: "enc_u32 v = enc_u32 w" and "n < LENGTH(32)"
  then have n: "n < 32" by simp
  from a have e: "(ucast (drop_bit 24 v) :: byte) = ucast (drop_bit 24 w)"
    "(ucast (drop_bit 16 v) :: byte) = ucast (drop_bit 16 w)"
    "(ucast (drop_bit 8 v) :: byte) = ucast (drop_bit 8 w)"
    "(ucast v :: byte) = ucast w"
    unfolding enc_u32_def list.inject by blast+
  from e(4) have e0: "(ucast (drop_bit 0 v) :: byte) = ucast (drop_bit 0 w)"
    by simp
  from n consider "0 \<le> n" "n - 0 < 8" | "8 \<le> n" "n - 8 < 8" | "16 \<le> n" "n - 16 < 8"
    | "24 \<le> n" "n - 24 < 8" by linarith
  then show "bit v n = bit w n"
    by cases (erule (1) bit_eq_from_byte [OF e0] bit_eq_from_byte [OF e(3)]
        bit_eq_from_byte [OF e(2)] bit_eq_from_byte [OF e(1)])+
qed

lemma enc_u64_inj: "enc_u64 v = enc_u64 w \<Longrightarrow> v = w"
proof (rule bit_word_eqI)
  fix n
  assume a: "enc_u64 v = enc_u64 w" and "n < LENGTH(64)"
  then have n: "n < 64" by simp
  from a have e: "(ucast (drop_bit 56 v) :: byte) = ucast (drop_bit 56 w)
    \<and> (ucast (drop_bit 48 v) :: byte) = ucast (drop_bit 48 w)
    \<and> (ucast (drop_bit 40 v) :: byte) = ucast (drop_bit 40 w)
    \<and> (ucast (drop_bit 32 v) :: byte) = ucast (drop_bit 32 w)
    \<and> (ucast (drop_bit 24 v) :: byte) = ucast (drop_bit 24 w)
    \<and> (ucast (drop_bit 16 v) :: byte) = ucast (drop_bit 16 w)
    \<and> (ucast (drop_bit 8 v) :: byte) = ucast (drop_bit 8 w)
    \<and> (ucast v :: byte) = ucast w \<and> ([]::byte list) = []"
    unfolding enc_u64_def list.inject .
  then have e0: "(ucast (drop_bit 0 v) :: byte) = ucast (drop_bit 0 w)"
    by simp
  note b = bit_eq_from_byte [where n = n and v = v and w = w]
  show "bit v n = bit w n"
  proof (cases "n < 32")
    case True
    show ?thesis
    proof (cases "n < 16")
      case True
      show ?thesis
      proof (cases "n < 8")
        case True
        then show ?thesis by (intro b [OF e0]) simp_all
      next
        case False
        with \<open>n < 16\<close> show ?thesis by (intro b [of 8]) (simp_all add: e)
      qed
    next
      case False
      show ?thesis
      proof (cases "n < 24")
        case True
        with False show ?thesis by (intro b [of 16]) (simp_all add: e)
      next
        case False
        with \<open>n < 32\<close> show ?thesis by (intro b [of 24]) (simp_all add: e)
      qed
    qed
  next
    case False
    show ?thesis
    proof (cases "n < 48")
      case True
      show ?thesis
      proof (cases "n < 40")
        case True
        with \<open>\<not> n < 32\<close> show ?thesis by (intro b [of 32]) (simp_all add: e)
      next
        case False
        with \<open>n < 48\<close> show ?thesis by (intro b [of 40]) (simp_all add: e)
      qed
    next
      case False
      show ?thesis
      proof (cases "n < 56")
        case True
        with False show ?thesis by (intro b [of 48]) (simp_all add: e)
      next
        case False
        with n show ?thesis by (intro b [of 56]) (simp_all add: e)
      qed
    qed
  qed
qed

lemma concat_enc_u64_inj:
  "length xs = length ys \<Longrightarrow> concat (map enc_u64 xs) = concat (map enc_u64 ys) \<Longrightarrow> xs = ys"
  by (induction xs ys rule: list_induct2) (auto dest: enc_u64_inj)

lemma encode_header_inj:
  assumes "wf_EifHeader g" and "wf_EifHeader h" and e: "encode_header g = encode_header h"
  shows "g = h"
proof -
  have l: "length (magic g) = length (magic h)"
    "length (section_offsets g) = length (section_offsets h)"
    "length (section_sizes g) = length (section_sizes h)"
    using assms(1,2) by (simp_all add: wf_EifHeader_def)
  have c: "length (concat (map enc_u64 (section_offsets g))) = length (concat (map enc_u64 (section_offsets h)))"
    "length (concat (map enc_u64 (section_sizes g))) = length (concat (map enc_u64 (section_sizes h)))"
    using l by (simp_all add: length_concat_enc_u64)
  from e l c have "magic g = magic h \<and> enc_u16 (version g) = enc_u16 (version h)
      \<and> enc_u16 (flags g) = enc_u16 (flags h)
      \<and> enc_u64 (default_memory g) = enc_u64 (default_memory h)
      \<and> enc_u64 (default_cpus g) = enc_u64 (default_cpus h)
      \<and> enc_u16 (reserved g) = enc_u16 (reserved h)
      \<and> enc_u16 (section_cnt g) = enc_u16 (section_cnt h)
      \<and> concat (map enc_u64 (section_offsets g)) = concat (map enc_u64 (section_offsets h))
      \<and> concat (map enc_u64 (section_sizes g)) = concat (map enc_u64 (section_sizes h))
      \<and> enc_u32 (unused g) = enc_u32 (unused h)
      \<and> enc_u32 (eif_crc32 g) = enc_u32 (eif_crc32 h)"
    by (simp add: encode_header_def)
  with l show ?thesis
    by (intro EifHeader.equality)
      (auto dest: enc_u16_inj enc_u32_inj enc_u64_inj concat_enc_u64_inj)
qed

lemma header_at_encode:
  assumes wf: "wf_EifHeader h"
  shows "header_at (encode_header h @ rest) = h"
proof -
  have l: "length (encode_header h) = 548" using wf by (rule length_encode_header)
  have "header_at (encode_header h @ rest) = header_at (encode_header h)"
    by (rule header_at_cong) (simp add: l)
  moreover have "encode_header (header_at (encode_header h)) = encode_header h"
    using l by (rule encode_header_at)
  then have "header_at (encode_header h) = h"
    using wf_header_at wf by (rule encode_header_inj [rotated 2])
  ultimately show ?thesis by simp
qed

subsection \<open>every member of the decoded header\<close>

lemma header_at_raw:
  assumes len: "548 \<le> length bs"
  shows "magic (header_at bs) = take 4 bs"
    and "unat (version (header_at bs)) = be_val (take 2 (drop 4 bs))"
    and "unat (flags (header_at bs)) = be_val (take 2 (drop 6 bs))"
    and "unat (default_memory (header_at bs)) = be_val (take 8 (drop 8 bs))"
    and "unat (default_cpus (header_at bs)) = be_val (take 8 (drop 16 bs))"
    and "unat (reserved (header_at bs)) = be_val (take 2 (drop 24 bs))"
    and "unat (section_cnt (header_at bs)) = be_val (take 2 (drop 26 bs))"
    and "length (section_offsets (header_at bs)) = 32"
    and "\<forall>i<32. unat (section_offsets (header_at bs) ! i) = be_val (take 8 (drop (28 + 8 * i) bs))"
    and "length (section_sizes (header_at bs)) = 32"
    and "\<forall>i<32. unat (section_sizes (header_at bs) ! i) = be_val (take 8 (drop (284 + 8 * i) bs))"
    and "unat (unused (header_at bs)) = be_val (take 4 (drop 540 bs))"
    and "unat (eif_crc32 (header_at bs)) = be_val (take 4 (drop 544 bs))"
    and "encode_header (header_at bs) = take 548 bs"
proof -
  show "magic (header_at bs) = take 4 bs"
    using take_4 [of bs] len by (simp add: header_at_def)
  show "\<forall>i<32. unat (section_offsets (header_at bs) ! i) = be_val (take 8 (drop (28 + 8 * i) bs))"
    using len by (simp add: header_at_offsets unat_be64_at)
  show "\<forall>i<32. unat (section_sizes (header_at bs) ! i) = be_val (take 8 (drop (284 + 8 * i) bs))"
    using len by (simp add: header_at_sizes unat_be64_at)
  show "unat (version (header_at bs)) = be_val (take 2 (drop 4 bs))"
    "unat (flags (header_at bs)) = be_val (take 2 (drop 6 bs))"
    "unat (default_memory (header_at bs)) = be_val (take 8 (drop 8 bs))"
    "unat (default_cpus (header_at bs)) = be_val (take 8 (drop 16 bs))"
    "unat (reserved (header_at bs)) = be_val (take 2 (drop 24 bs))"
    "unat (section_cnt (header_at bs)) = be_val (take 2 (drop 26 bs))"
    "unat (unused (header_at bs)) = be_val (take 4 (drop 540 bs))"
    "unat (eif_crc32 (header_at bs)) = be_val (take 4 (drop 544 bs))"
    using len by (simp_all add: header_at_def unat_be16_at unat_be32_at unat_be64_at)
  show "length (section_offsets (header_at bs)) = 32" "length (section_sizes (header_at bs)) = 32"
    by (simp_all add: header_at_def)
  have "header_at (take 548 bs) = header_at bs"
    by (rule header_at_cong) simp
  moreover have "encode_header (header_at (take 548 bs)) = take 548 bs"
    using len by (intro encode_header_at) simp
  ultimately show "encode_header (header_at bs) = take 548 bs" by simp
qed

lemma wf_bad_header: "wf_EifHeader bad_header"
  by (simp add: wf_EifHeader_def bad_header_def MAX_SECTIONS_def)

lemma length_bad_bytes: "length bad_bytes = 548"
  unfolding bad_bytes_def using wf_bad_header by (rule length_encode_header)

lemma header_at_bad_bytes: "header_at (bad_bytes @ rest) = bad_header"
  unfolding bad_bytes_def using wf_bad_header by (rule header_at_encode)

section \<open>Decoding the header: the properties\<close>

text \<open>
  C2. A buffer of exactly 548 bytes is decoded by \<open>parse_eif_header\<close>, whatever the
  structure held before, and writing every field of the decoded header back at its place,
  most significant byte first, gives the 548 bytes again.
\<close>

theorem decode_encode_roundtrip:
  assumes "wf_EifHeader h0" and "length bs = 548"
  shows "\<exists>h. parse_eif_header bs (length bs) h0 = Inr h \<and> encode_header h = bs"
  using assms by (simp add: parse_eif_header_in encode_header_at)

theorem decode_encode_roundtrip_witness:
  "wf_EifHeader blank_header \<and> length demo_bytes = 548
   \<and> (\<exists>h. parse_eif_header demo_bytes (length demo_bytes) blank_header = Inr h
          \<and> encode_header h = demo_bytes)"
  using decode_encode_roundtrip [of blank_header demo_bytes]
  by (simp add: wf_blank_header length_demo_bytes)

text \<open>
  C3. \<open>parse_eif_header\<close> reads the magic at 0, and as big-endian numbers the version at
  4, the flags at 6, \<open>default_memory\<close> at 8, \<open>default_cpus\<close> at 16, \<open>reserved\<close> at 24,
  the section count at 26, the 32 section offsets from 28, the 32 section sizes from 284,
  \<open>unused\<close> at 540 and the checksum at 544; \<open>parse_eif_section_header\<close> reads from 12
  bytes the type at 0, the flags at 2 and the size at 4, big-endian as well.
\<close>

theorem fields_at_fixed_offsets_big_endian:
  "(wf_EifHeader h0 \<and> 548 \<le> n \<and> n \<le> length bs \<longrightarrow>
      (\<exists>h. parse_eif_header bs n h0 = Inr h
         \<and> magic h = take 4 (drop 0 bs)
         \<and> unat (version h) = be_val (take 2 (drop 4 bs))
         \<and> unat (flags h) = be_val (take 2 (drop 6 bs))
         \<and> unat (default_memory h) = be_val (take 8 (drop 8 bs))
         \<and> unat (default_cpus h) = be_val (take 8 (drop 16 bs))
         \<and> unat (reserved h) = be_val (take 2 (drop 24 bs))
         \<and> unat (section_cnt h) = be_val (take 2 (drop 26 bs))
         \<and> length (section_offsets h) = 32
         \<and> (\<forall>i<32. unat (section_offsets h ! i) = be_val (take 8 (drop (28 + 8 * i) bs)))
         \<and> length (section_sizes h) = 32
         \<and> (\<forall>i<32. unat (section_sizes h ! i) = be_val (take 8 (drop (284 + 8 * i) bs)))
         \<and> unat (unused h) = be_val (take 4 (drop 540 bs))
         \<and> unat (eif_crc32 h) = be_val (take 4 (drop 544 bs))))
   \<and> (12 \<le> k \<and> k \<le> length cs \<longrightarrow>
      (\<exists>s. parse_eif_section_header cs k s0 = Inr s
         \<and> unat (section_type s) = be_val (take 2 (drop 0 cs))
         \<and> unat (section_flags s) = be_val (take 2 (drop 2 cs))
         \<and> unat (section_size s) = be_val (take 8 (drop 4 cs))))"
proof (intro conjI impI)
  assume a: "wf_EifHeader h0 \<and> 548 \<le> n \<and> n \<le> length bs"
  then have len: "548 \<le> length bs" by simp
  have p: "parse_eif_header bs n h0 = Inr (header_at bs)"
    using a len by (simp add: parse_eif_header_in)
  have m: "magic (header_at bs) = take 4 (drop 0 bs)"
    using take_4 [of bs] len by (simp add: header_at_def)
  have o: "\<forall>i<32. unat (section_offsets (header_at bs) ! i) = be_val (take 8 (drop (28 + 8 * i) bs))"
    using len by (simp add: header_at_offsets unat_be64_at)
  have s: "\<forall>i<32. unat (section_sizes (header_at bs) ! i) = be_val (take 8 (drop (284 + 8 * i) bs))"
    using len by (simp add: header_at_sizes unat_be64_at)
  have f: "unat (version (header_at bs)) = be_val (take 2 (drop 4 bs))"
    "unat (flags (header_at bs)) = be_val (take 2 (drop 6 bs))"
    "unat (default_memory (header_at bs)) = be_val (take 8 (drop 8 bs))"
    "unat (default_cpus (header_at bs)) = be_val (take 8 (drop 16 bs))"
    "unat (reserved (header_at bs)) = be_val (take 2 (drop 24 bs))"
    "unat (section_cnt (header_at bs)) = be_val (take 2 (drop 26 bs))"
    "unat (unused (header_at bs)) = be_val (take 4 (drop 540 bs))"
    "unat (eif_crc32 (header_at bs)) = be_val (take 4 (drop 544 bs))"
    using len by (simp_all add: header_at_def unat_be16_at unat_be32_at unat_be64_at)
  have l: "length (section_offsets (header_at bs)) = 32" "length (section_sizes (header_at bs)) = 32"
    by (simp_all add: header_at_def)
  show "\<exists>h. parse_eif_header bs n h0 = Inr h
         \<and> magic h = take 4 (drop 0 bs)
         \<and> unat (version h) = be_val (take 2 (drop 4 bs))
         \<and> unat (flags h) = be_val (take 2 (drop 6 bs))
         \<and> unat (default_memory h) = be_val (take 8 (drop 8 bs))
         \<and> unat (default_cpus h) = be_val (take 8 (drop 16 bs))
         \<and> unat (reserved h) = be_val (take 2 (drop 24 bs))
         \<and> unat (section_cnt h) = be_val (take 2 (drop 26 bs))
         \<and> length (section_offsets h) = 32
         \<and> (\<forall>i<32. unat (section_offsets h ! i) = be_val (take 8 (drop (28 + 8 * i) bs)))
         \<and> length (section_sizes h) = 32
         \<and> (\<forall>i<32. unat (section_sizes h ! i) = be_val (take 8 (drop (284 + 8 * i) bs)))
         \<and> unat (unused h) = be_val (take 4 (drop 540 bs))
         \<and> unat (eif_crc32 h) = be_val (take 4 (drop 544 bs))"
    unfolding p by (intro exI [of _ "header_at bs"] conjI refl m o s f l)
next
  assume a: "12 \<le> k \<and> k \<le> length cs"
  then have len: "12 \<le> length cs" by simp
  have p: "parse_eif_section_header cs k s0 = Inr (section_header_at cs)"
    using a len by (simp add: parse_eif_section_header_in)
  have f: "unat (section_type (section_header_at cs)) = be_val (take 2 (drop 0 cs))"
    "unat (section_flags (section_header_at cs)) = be_val (take 2 (drop 2 cs))"
    "unat (section_size (section_header_at cs)) = be_val (take 8 (drop 4 cs))"
    using len unat_be16_at [of 0 cs] by (simp_all add: section_header_at_def unat_be16_at unat_be64_at)
  show "\<exists>s. parse_eif_section_header cs k s0 = Inr s
         \<and> unat (section_type s) = be_val (take 2 (drop 0 cs))
         \<and> unat (section_flags s) = be_val (take 2 (drop 2 cs))
         \<and> unat (section_size s) = be_val (take 8 (drop 4 cs))"
    unfolding p by (intro exI [of _ "section_header_at cs"] conjI refl f)
qed

theorem fields_at_fixed_offsets_big_endian_witness:
  "wf_EifHeader junk_header \<and> 548 \<le> (548::nat) \<and> 548 \<le> length demo_bytes
   \<and> (\<exists>h. parse_eif_header demo_bytes 548 junk_header = Inr h
         \<and> magic h = take 4 (drop 0 demo_bytes)
         \<and> unat (version h) = be_val (take 2 (drop 4 demo_bytes))
         \<and> unat (section_cnt h) = be_val (take 2 (drop 26 demo_bytes))
         \<and> unat (section_offsets h ! 1) = be_val (take 8 (drop (28 + 8 * 1) demo_bytes))
         \<and> unat (section_sizes h ! 2) = be_val (take 8 (drop (284 + 8 * 2) demo_bytes))
         \<and> unat (eif_crc32 h) = be_val (take 4 (drop 544 demo_bytes)))
   \<and> (\<exists>s. parse_eif_section_header [0, 5, 0, 0, 0, 0, 0, 0, 0, 0, 0, 20] 12
              \<lparr>section_type = 9, section_flags = 9, section_size = 9\<rparr> = Inr s
         \<and> unat (section_type s) = be_val (take 2 (drop 0 [0, 5, 0, 0, 0, 0, 0, 0, 0, 0, 0, 20]))
         \<and> unat (section_flags s) = be_val (take 2 (drop 2 [0, 5, 0, 0, 0, 0, 0, 0, 0, 0, 0, 20]))
         \<and> unat (section_size s) = be_val (take 8 (drop 4 [0, 5, 0, 0, 0, 0, 0, 0, 0, 0, 0, 20])))"
proof -
  have w: "wf_EifHeader junk_header \<and> 548 \<le> (548::nat) \<and> 548 \<le> length demo_bytes"
    by (simp add: wf_junk_header length_demo_bytes)
  have s: "12 \<le> (12::nat) \<and> 12 \<le> length [0, 5, 0, 0, 0, 0, 0, 0, 0, 0, 0, 20 :: byte]"
    by simp
  note t = fields_at_fixed_offsets_big_endian [of junk_header 548 demo_bytes 12
      "[0, 5, 0, 0, 0, 0, 0, 0, 0, 0, 0, 20]" "\<lparr>section_type = 9, section_flags = 9, section_size = 9\<rparr>"]
  from t w obtain h where h: "parse_eif_header demo_bytes 548 junk_header = Inr h"
         "magic h = take 4 (drop 0 demo_bytes)"
         "unat (version h) = be_val (take 2 (drop 4 demo_bytes))"
         "unat (section_cnt h) = be_val (take 2 (drop 26 demo_bytes))"
         "\<forall>i<32. unat (section_offsets h ! i) = be_val (take 8 (drop (28 + 8 * i) demo_bytes))"
         "\<forall>i<32. unat (section_sizes h ! i) = be_val (take 8 (drop (284 + 8 * i) demo_bytes))"
         "unat (eif_crc32 h) = be_val (take 4 (drop 544 demo_bytes))"
    by blast
  from h(5) have o: "unat (section_offsets h ! 1) = be_val (take 8 (drop (28 + 8 * 1) demo_bytes))"
    by (rule allE [where x = 1]) simp
  from h(6) have z: "unat (section_sizes h ! 2) = be_val (take 8 (drop (284 + 8 * 2) demo_bytes))"
    by (rule allE [where x = 2]) simp
  from t s have "\<exists>s. parse_eif_section_header [0, 5, 0, 0, 0, 0, 0, 0, 0, 0, 0, 20] 12
              \<lparr>section_type = 9, section_flags = 9, section_size = 9\<rparr> = Inr s
         \<and> unat (section_type s) = be_val (take 2 (drop 0 [0, 5, 0, 0, 0, 0, 0, 0, 0, 0, 0, 20]))
         \<and> unat (section_flags s) = be_val (take 2 (drop 2 [0, 5, 0, 0, 0, 0, 0, 0, 0, 0, 0, 20]))
         \<and> unat (section_size s) = be_val (take 8 (drop 4 [0, 5, 0, 0, 0, 0, 0, 0, 0, 0, 0, 20]))"
    by blast
  with w h(1-4,7) o z show ?thesis by blast
qed

text \<open>
  C7. With a length below 548 \<open>parse_eif_header\<close> stops at its assertion
  (\<open>TruncatedInput\<close>). With a length of at least 548 that the buffer really has, it
  returns a header in which every member holds the value recorded in the buffer at its
  place, so that writing the members back gives the first 548 bytes again; it does so
  whatever the magic and the section count are. In both cases it makes no access outside
  the buffer.
\<close>

theorem parse_eif_header_truncated_or_raw:
  assumes "wf_EifHeader h0" and "n \<le> length bs"
  shows "(n < 548 \<longrightarrow> parse_eif_header bs n h0 = Inl TruncatedInput)
       \<and> (548 \<le> n \<longrightarrow>
            (\<exists>h. parse_eif_header bs n h0 = Inr h
               \<and> magic h = take 4 bs
               \<and> unat (version h) = be_val (take 2 (drop 4 bs))
               \<and> unat (flags h) = be_val (take 2 (drop 6 bs))
               \<and> unat (default_memory h) = be_val (take 8 (drop 8 bs))
               \<and> unat (default_cpus h) = be_val (take 8 (drop 16 bs))
               \<and> unat (reserved h) = be_val (take 2 (drop 24 bs))
               \<and> unat (section_cnt h) = be_val (take 2 (drop 26 bs))
               \<and> length (section_offsets h) = 32
               \<and> (\<forall>i<32. unat (section_offsets h ! i) = be_val (take 8 (drop (28 + 8 * i) bs)))
               \<and> length (section_sizes h) = 32
               \<and> (\<forall>i<32. unat (section_sizes h ! i) = be_val (take 8 (drop (284 + 8 * i) bs)))
               \<and> unat (unused h) = be_val (take 4 (drop 540 bs))
               \<and> unat (eif_crc32 h) = be_val (take 4 (drop 544 bs))
               \<and> encode_header h = take 548 bs))
       \<and> parse_eif_header bs n h0 \<noteq> Inl OutOfBounds"
proof (cases "n < 548")
  case True
  then show ?thesis by (simp add: parse_eif_header_def EIF_HEADER_SIZE_def)
next
  case False
  then have n: "548 \<le> n" and len: "548 \<le> length bs" using assms by simp_all
  have p: "parse_eif_header bs n h0 = Inr (header_at bs)"
    using assms(1) n len by (rule parse_eif_header_in)
  note r = header_at_raw [OF len]
  have "\<exists>h. parse_eif_header bs n h0 = Inr h
               \<and> magic h = take 4 bs
               \<and> unat (version h) = be_val (take 2 (drop 4 bs))
               \<and> unat (flags h) = be_val (take 2 (drop 6 bs))
               \<and> unat (default_memory h) = be_val (take 8 (drop 8 bs))
               \<and> unat (default_cpus h) = be_val (take 8 (drop 16 bs))
               \<and> unat (reserved h) = be_val (take 2 (drop 24 bs))
               \<and> unat (section_cnt h) = be_val (take 2 (drop 26 bs))
               \<and> length (section_offsets h) = 32
               \<and> (\<forall>i<32. unat (section_offsets h ! i) = be_val (take 8 (drop (28 + 8 * i) bs)))
               \<and> length (section_sizes h) = 32
               \<and> (\<forall>i<32. unat (section_sizes h ! i) = be_val (take 8 (drop (284 + 8 * i) bs)))
               \<and> unat (unused h) = be_val (take 4 (drop 540 bs))
               \<and> unat (eif_crc32 h) = be_val (take 4 (drop 544 bs))
               \<and> encode_header h = take 548 bs"
    unfolding p by (intro exI [of _ "header_at bs"] conjI refl r)
  moreover have "parse_eif_header bs n h0 \<noteq> Inl OutOfBounds"
    unfolding p by simp
  ultimately show ?thesis using n by simp
qed

theorem parse_eif_header_truncated_or_raw_witness:
  "wf_EifHeader junk_header
   \<and> 547 \<le> length (take 547 bad_bytes) \<and> 549 \<le> length (bad_bytes @ [7])
   \<and> magic bad_header = [66, 65, 68, 33] \<and> magic bad_header \<noteq> [46, 101, 105, 102]
   \<and> unat (section_cnt bad_header) = 65535 \<and> MAX_SECTIONS < unat (section_cnt bad_header)
   \<and> parse_eif_header (take 547 bad_bytes) 547 junk_header = Inl TruncatedInput
   \<and> parse_eif_header (bad_bytes @ [7]) 549 junk_header = Inr bad_header
   \<and> magic bad_header = take 4 (bad_bytes @ [7])
   \<and> unat (version bad_header) = be_val (take 2 (drop 4 (bad_bytes @ [7])))
   \<and> unat (flags bad_header) = be_val (take 2 (drop 6 (bad_bytes @ [7])))
   \<and> unat (default_memory bad_header) = be_val (take 8 (drop 8 (bad_bytes @ [7])))
   \<and> unat (default_cpus bad_header) = be_val (take 8 (drop 16 (bad_bytes @ [7])))
   \<and> unat (reserved bad_header) = be_val (take 2 (drop 24 (bad_bytes @ [7])))
   \<and> unat (section_cnt bad_header) = be_val (take 2 (drop 26 (bad_bytes @ [7])))
   \<and> unat (section_offsets bad_header ! 31)
         = be_val (take 8 (drop (28 + 8 * 31) (bad_bytes @ [7])))
   \<and> unat (section_sizes bad_header ! 31)
         = be_val (take 8 (drop (284 + 8 * 31) (bad_bytes @ [7])))
   \<and> unat (unused bad_header) = be_val (take 4 (drop 540 (bad_bytes @ [7])))
   \<and> unat (eif_crc32 bad_header) = be_val (take 4 (drop 544 (bad_bytes @ [7])))
   \<and> encode_header bad_header = take 548 (bad_bytes @ [7])
   \<and> parse_eif_header (take 547 bad_bytes) 547 junk_header \<noteq> Inl OutOfBounds
   \<and> parse_eif_header (bad_bytes @ [7]) 549 junk_header \<noteq> Inl OutOfBounds"
proof -
  have l: "547 \<le> length (take 547 bad_bytes)" "549 \<le> length (bad_bytes @ [7])"
    by (simp_all add: length_bad_bytes)
  have v: "magic bad_header = [66, 65, 68, 33]" "magic bad_header \<noteq> [46, 101, 105, 102]"
    "unat (section_cnt bad_header) = 65535" "MAX_SECTIONS < unat (section_cnt bad_header)"
    by (simp_all add: bad_header_def MAX_SECTIONS_def)
  from parse_eif_header_truncated_or_raw [OF wf_junk_header l(1)]
  have a: "parse_eif_header (take 547 bad_bytes) 547 junk_header = Inl TruncatedInput"
    "parse_eif_header (take 547 bad_bytes) 547 junk_header \<noteq> Inl OutOfBounds"
    by simp_all
  have e: "parse_eif_header (bad_bytes @ [7]) 549 junk_header = Inr bad_header"
    using parse_eif_header_in [OF wf_junk_header, of 549 "bad_bytes @ [7]"]
    by (simp add: length_bad_bytes header_at_bad_bytes)
  from parse_eif_header_truncated_or_raw [OF wf_junk_header l(2)]
  obtain h where h: "parse_eif_header (bad_bytes @ [7]) 549 junk_header = Inr h"
      "magic h = take 4 (bad_bytes @ [7])"
      "unat (version h) = be_val (take 2 (drop 4 (bad_bytes @ [7])))"
      "unat (flags h) = be_val (take 2 (drop 6 (bad_bytes @ [7])))"
      "unat (default_memory h) = be_val (take 8 (drop 8 (bad_bytes @ [7])))"
      "unat (default_cpus h) = be_val (take 8 (drop 16 (bad_bytes @ [7])))"
      "unat (reserved h) = be_val (take 2 (drop 24 (bad_bytes @ [7])))"
      "unat (section_cnt h) = be_val (take 2 (drop 26 (bad_bytes @ [7])))"
      "\<forall>i<32. unat (section_offsets h ! i) = be_val (take 8 (drop (28 + 8 * i) (bad_bytes @ [7])))"
      "\<forall>i<32. unat (section_sizes h ! i) = be_val (take 8 (drop (284 + 8 * i) (bad_bytes @ [7])))"
      "unat (unused h) = be_val (take 4 (drop 540 (bad_bytes @ [7])))"
      "unat (eif_crc32 h) = be_val (take 4 (drop 544 (bad_bytes @ [7])))"
      "encode_header h = take 548 (bad_bytes @ [7])"
    and ne: "parse_eif_header (bad_bytes @ [7]) 549 junk_header \<noteq> Inl OutOfBounds"
    by auto
  from h(1) e have hb: "h = bad_header" by simp
  from h(9) have o: "unat (section_offsets h ! 31)
         = be_val (take 8 (drop (28 + 8 * 31) (bad_bytes @ [7])))"
    by (rule allE [where x = 31]) simp
  from h(10) have z: "unat (section_sizes h ! 31)
         = be_val (take 8 (drop (284 + 8 * 31) (bad_bytes @ [7])))"
    by (rule allE [where x = 31]) simp
  from wf_junk_header l v a e h(2-8,11-13) o z ne show ?thesis
    unfolding hb by blast
qed

text \<open>
  C9. Two buffers of at least 548 bytes that agree on their first 548 bytes are decoded to
  the same header, and the header does not depend on what the structure held before the
  call: every member is assigned.
\<close>

theorem parse_eif_header_prefix_only:
  assumes "wf_EifHeader h0" and "wf_EifHeader h1"
    and "548 \<le> length xs" and "548 \<le> length ys"
    and "take 548 xs = take 548 ys"
  shows "parse_eif_header xs (length xs) h0 = parse_eif_header ys (length ys) h1
       \<and> (\<exists>h. parse_eif_header xs (length xs) h0 = Inr h)"
  using assms by (simp add: parse_eif_header_in header_at_cong [of xs ys])

theorem parse_eif_header_prefix_only_witness:
  "wf_EifHeader blank_header \<and> wf_EifHeader junk_header
   \<and> 548 \<le> length (demo_bytes @ [1, 2, 3]) \<and> 548 \<le> length (demo_bytes @ [9])
   \<and> take 548 (demo_bytes @ [1, 2, 3]) = take 548 (demo_bytes @ [9])
   \<and> parse_eif_header (demo_bytes @ [1, 2, 3]) (length (demo_bytes @ [1, 2, 3])) blank_header
       = parse_eif_header (demo_bytes @ [9]) (length (demo_bytes @ [9])) junk_header
   \<and> (\<exists>h. parse_eif_header (demo_bytes @ [1, 2, 3]) (length (demo_bytes @ [1, 2, 3]))
             blank_header = Inr h)"
proof -
  have a: "548 \<le> length (demo_bytes @ [1, 2, 3])" and b: "548 \<le> length (demo_bytes @ [9])"
    and c: "take 548 (demo_bytes @ [1, 2, 3]) = take 548 (demo_bytes @ [9])"
    by (simp_all add: length_demo_bytes)
  from parse_eif_header_prefix_only [OF wf_blank_header wf_junk_header a b c]
    wf_blank_header wf_junk_header a b c
  show ?thesis by blast
qed

section \<open>Walking the sections: lemmas\<close>

lemma sint_u64:
  "sint (w::u64) = (if unat w < 2 ^ 63 then int (unat w) else int (unat w) - 2 ^ 64)"
proof -
  have s: "sint w = (uint w + 2 ^ 63) mod 2 ^ 64 - 2 ^ 63"
    using int_word_sint [of "uint w", where 'a = 64] by simp
  have u: "uint w = int (unat w)" by (rule uint_nat)
  have b: "0 \<le> uint w" "uint w < 2 ^ 64"
    using uint_bounded [of w] by simp_all
  show ?thesis
  proof (cases "unat w < 2 ^ 63")
    case True
    then have "uint w < 2 ^ 63"
      by (metis nat_int nat_less_numeral_power_cancel_iff of_nat_unat)
    then have "(uint w + 2 ^ 63) mod 2 ^ 64 = uint w + 2 ^ 63"
      using b by (intro mod_pos_pos_trivial) simp_all
    with s have "sint w = uint w" by simp
    then have "sint w = int (unat w)" by (simp only: u)
    with True show ?thesis by (simp only: if_True)
  next
    case False
    then have "2 ^ 63 \<le> uint w"
      using nat_int_comparison(2) by fastforce
    then have r: "0 \<le> uint w - 2 ^ 63" "uint w - 2 ^ 63 < 2 ^ 64"
      using b by simp_all
    have "(uint w + 2 ^ 63) mod 2 ^ 64 = ((uint w - 2 ^ 63) + 2 ^ 64) mod 2 ^ 64"
      by (rule arg_cong [where f = "\<lambda>x. x mod 2 ^ 64"]) simp
    also have "\<dots> = (uint w - 2 ^ 63) mod 2 ^ 64"
      by (simp only: mod_add_self2)
    also have "\<dots> = uint w - 2 ^ 63"
      using r by (rule mod_pos_pos_trivial)
    finally have "(uint w + 2 ^ 63) mod 2 ^ 64 = uint w - 2 ^ 63" .
    with s have "sint w = uint w - 2 ^ 64" by simp
    then have "sint w = int (unat w) - 2 ^ 64" by (simp only: u)
    with False show ?thesis by (simp only: if_False)
  qed
qed

lemma unat_plus_1: "(w::u64) \<noteq> - 1 \<Longrightarrow> unat (w + 1) = unat w + 1"
  by (metis Suc_eq_plus1 add.commute add.right_inverse add_left_cancel unatSuc)



lemma unat_lt_u64: "unat (w::u64) < 2 ^ 64"
  using unsigned_less [of w] by simp

lemma section_header_at_append:
  "12 \<le> length xs \<Longrightarrow> section_header_at (xs @ ys) = section_header_at xs"
proof -
  assume "12 \<le> length xs"
  then have "\<And>i. i < 12 \<Longrightarrow> (xs @ ys) ! i = xs ! i"
    by (simp add: nth_append)
  then show ?thesis
    by (simp add: section_header_at_def be16_at_def be64_at_def)
qed

lemma malloc_eq_Some:
  "malloc m n = Some x \<longleftrightarrow> heap_ok m n \<and> x = map (heap_fill m) [0..<n]"
  by (auto simp: malloc_def)

lemma malloc_eq_None: "malloc m n = None \<longleftrightarrow> \<not> heap_ok m n"
  by (simp add: malloc_def)

lemma capture_metadata_wrap:
  assumes "section_size sh = - 1"
  shows "capture_metadata m sh st =
     (if heap_ok m 0 then Inl (OutOfBounds, (fd st)\<lparr>calls := calls (fd st) @ [Read 0]\<rparr>)
      else Inl (MetadataAllocFailed, fd st))"
  using assms
  by (simp add: capture_metadata_def malloc_def read_fd_def store_at_def)

lemma update_last_take: "n < length xs \<Longrightarrow> (take (Suc n) xs)[n := v] = take n xs @ [v]"
  by (simp add: take_Suc_conv_app_nth list_update_append)

lemma sint_Suc_cases:
  assumes "unat (w::u64) = Suc n"
  shows "sint w = int (Suc n) \<and> Suc n < 2 ^ 63 \<or> sint w < 0 \<and> 2 ^ 63 \<le> Suc n"
proof (cases "unat w < 2 ^ 63")
  case True
  then have "sint w = int (unat w)" by (simp only: sint_u64 if_True)
  with True assms show ?thesis by (simp only:) simp
next
  case False
  then have "sint w = int (unat w) - 2 ^ 64" by (simp only: sint_u64 if_False)
  moreover have "int (unat w) < 2 ^ 64"
    using unat_lt_u64 [of w] by (metis of_nat_less_numeral_power_cancel_iff)
  ultimately have "sint w < 0" by simp
  with False assms show ?thesis by (simp only:) simp
qed

lemma capture_metadata_eq:
  assumes ne: "section_size sh \<noteq> - 1"
  shows "capture_metadata m sh st =
     (let n = unat (section_size sh); f = fd st;
          bs = take (Suc n) (drop (fpos f) (contents f));
          f1 = f\<lparr>fpos := fpos f + length bs, calls := calls f @ [Read (Suc n)]\<rparr>
      in if \<not> heap_ok m (Suc n) then Inl (MetadataAllocFailed, f)
         else if 2 ^ 63 \<le> Suc n \<or> length bs \<noteq> Suc n then Inl (TruncatedMetadata, f1)
         else Inr (st\<lparr>fd := f1, metadata := Some (take n (drop (fpos f) (contents f)) @ [0])\<rparr>))"
proof -
  define n where "n = unat (section_size sh)"
  define size where "size = section_size sh + 1"
  define bs where "bs = take (Suc n) (drop (fpos (fd st)) (contents (fd st)))"
  define f1 where "f1 = (fd st)\<lparr>fpos := fpos (fd st) + length bs, calls := calls (fd st) @ [Read (Suc n)]\<rparr>"
  define m0 where "m0 = map (heap_fill m) [0..<Suc n]"
  have us: "unat size = Suc n"
    using unat_plus_1 [OF ne] by (simp add: size_def n_def)
  have um: "unat (size - 1) = n"
    by (simp add: size_def n_def)
  have lb: "length bs \<le> Suc n"
    by (simp add: bs_def)
  have rd: "read_fd (fd st) m0 (Suc n) = Inr (int (length bs), bs @ drop (length bs) m0, f1)"
    by (simp add: read_fd_def Let_def m0_def bs_def f1_def)
  have c: "capture_metadata m sh st =
      (case malloc m (Suc n) of None \<Rightarrow> Inl (MetadataAllocFailed, fd st)
       | Some metadata0 \<Rightarrow>
          (case read_fd (fd st) metadata0 (Suc n) of
             Inl e \<Rightarrow> Inl (e, fd st)
           | Inr (got, metadata1, f1) \<Rightarrow>
               if got \<noteq> sint size then Inl (TruncatedMetadata, f1)
               else
                 (case store_at metadata1 n 0 of
                    Inl e \<Rightarrow> Inl (e, f1)
                  | Inr metadata2 \<Rightarrow> Inr (st\<lparr>fd := f1, metadata := Some metadata2\<rparr>))))"
    unfolding capture_metadata_def Let_def size_def [symmetric] us um ..
  have goal: "capture_metadata m sh st =
      (if \<not> heap_ok m (Suc n) then Inl (MetadataAllocFailed, fd st)
       else if 2 ^ 63 \<le> Suc n \<or> length bs \<noteq> Suc n then Inl (TruncatedMetadata, f1)
       else Inr (st\<lparr>fd := f1, metadata := Some (take n (drop (fpos (fd st)) (contents (fd st))) @ [0])\<rparr>))"
  proof (cases "heap_ok m (Suc n)")
    case False
    then show ?thesis unfolding c by (simp add: malloc_def)
  next
    case ok: True
    then have ml: "malloc m (Suc n) = Some m0"
      by (simp add: malloc_def m0_def)
    have c': "capture_metadata m sh st =
        (if int (length bs) \<noteq> sint size then Inl (TruncatedMetadata, f1)
         else (case store_at (bs @ drop (length bs) m0) n 0 of
                    Inl e \<Rightarrow> Inl (e, f1)
                  | Inr metadata2 \<Rightarrow> Inr (st\<lparr>fd := f1, metadata := Some metadata2\<rparr>)))"
      by (simp add: c ml rd)
    from sint_Suc_cases [OF us] show ?thesis
    proof
      assume a: "sint size = int (Suc n) \<and> Suc n < 2 ^ 63"
      show ?thesis
      proof (cases "length bs = Suc n")
        case True
        have "n < length (drop (fpos (fd st)) (contents (fd st)))"
          using True unfolding bs_def by (metis Suc_le_lessD length_take min.cobounded1)
        then have "bs[n := 0] = take n (drop (fpos (fd st)) (contents (fd st))) @ [0]"
          unfolding bs_def by (rule update_last_take)
        moreover have "length m0 = Suc n" by (simp add: m0_def)
        ultimately show ?thesis
          unfolding c' using a True ok by (simp add: store_at_def)
      next
        case False
        then have "int (length bs) \<noteq> sint size" using a by (metis of_nat_eq_iff)
        then show ?thesis unfolding c' using False ok by simp
      qed
    next
      assume a: "sint size < 0 \<and> 2 ^ 63 \<le> Suc n"
      then have "int (length bs) \<noteq> sint size" by (metis not_less of_nat_0_le_iff)
      then show ?thesis unfolding c' using a ok by simp
    qed
  qed
  show ?thesis
    unfolding goal Let_def n_def [symmetric] bs_def [symmetric] f1_def [symmetric] ..
qed


lemma lseek_eq:
  "lseek f off =
     (if sint off < 0 \<or> seek_max f < sint off then (- 1, f\<lparr>calls := calls f @ [Lseek off]\<rparr>)
      else (off, f\<lparr>fpos := unat off, calls := calls f @ [Lseek off]\<rparr>))"
  by (simp add: lseek_def Let_def)

lemma read_fd_eq:
  "count \<le> length b \<Longrightarrow>
   read_fd f b count =
     Inr (int (length (take count (drop (fpos f) (contents f)))),
          take count (drop (fpos f) (contents f))
            @ drop (length (take count (drop (fpos f) (contents f)))) b,
          f\<lparr>fpos := fpos f + length (take count (drop (fpos f) (contents f))),
            calls := calls f @ [Read count]\<rparr>)"
  by (simp add: read_fd_def Let_def)

lemma visit_section_eq:
  assumes i1: "i < length (section_offsets h)" and i2: "i < length (section_sizes h)"
    and b: "12 \<le> length (buf st)"
  shows "visit_section m h i st =
    (let off = section_offsets h ! i; f = fd st;
         p = seek_pos f off;
         hb = take 12 (drop p (contents f));
         f2 = f\<lparr>fpos := p + length hb, calls := calls f @ [Lseek off, Read 12]\<rparr>;
         sh = section_header_at hb;
         st1 = st\<lparr>fd := f2, buf := hb @ drop 12 (buf st), printed := printed st @ [sh],
                  warnings := (if section_sizes h ! i \<noteq> section_size sh
                               then warnings st @ [(section_sizes h ! i, section_size sh)]
                               else warnings st)\<rparr>
     in if off \<noteq> - 1 \<and> (sint off < 0 \<or> seek_max f < sint off)
        then Inl (SeekFailed, f\<lparr>calls := calls f @ [Lseek off]\<rparr>)
        else if length hb \<noteq> 12 then Inl (TruncatedSectionHeader, f2)
        else if metadata st = None \<and> section_type sh = 5 then capture_metadata m sh st1
        else Inr st1)"
proof -
  define off where "off = section_offsets h ! i"
  define p where "p = seek_pos (fd st) off"
  define hb where "hb = take 12 (drop p (contents (fd st)))"
  define f1 where "f1 = (fd st)\<lparr>fpos := p, calls := calls (fd st) @ [Lseek off]\<rparr>"
  define f2 where "f2 = (fd st)\<lparr>fpos := p + length hb, calls := calls (fd st) @ [Lseek off, Read 12]\<rparr>"
  define sh where "sh = section_header_at hb"
  define st1 where "st1 = st\<lparr>fd := f2, buf := hb @ drop 12 (buf st), printed := printed st @ [sh],
                  warnings := (if section_sizes h ! i \<noteq> section_size sh
                               then warnings st @ [(section_sizes h ! i, section_size sh)]
                               else warnings st)\<rparr>"
  have ld: "load_at (section_offsets h) i = Inr off" "load_at (section_sizes h) i = Inr (section_sizes h ! i)"
    using i1 i2 by (simp_all add: off_def)
  have goal: "visit_section m h i st =
       (if off \<noteq> - 1 \<and> (sint off < 0 \<or> seek_max (fd st) < sint off)
        then Inl (SeekFailed, (fd st)\<lparr>calls := calls (fd st) @ [Lseek off]\<rparr>)
        else if length hb \<noteq> 12 then Inl (TruncatedSectionHeader, f2)
        else if metadata st = None \<and> section_type sh = 5 then capture_metadata m sh st1
        else Inr st1)"
  proof (cases "off \<noteq> - 1 \<and> (sint off < 0 \<or> seek_max (fd st) < sint off)")
    case True
    then have "lseek (fd st) off = (- 1, (fd st)\<lparr>calls := calls (fd st) @ [Lseek off]\<rparr>)"
      by (simp add: lseek_eq)
    moreover from True have "- 1 \<noteq> off" by auto
    ultimately show ?thesis
      using True by (simp add: visit_section_def ld)
  next
    case False
    have ls: "lseek (fd st) off = (off, f1)"
    proof (cases "sint off < 0 \<or> seek_max (fd st) < sint off")
      case True
      with False have "off = - 1" by blast
      with True show ?thesis
        by (simp add: lseek_eq f1_def p_def seek_pos_def)
    next
      case False
      then show ?thesis
        by (simp add: lseek_eq f1_def p_def seek_pos_def)
    qed
    have rd: "read_fd f1 (buf st) 12 = Inr (int (length hb), hb @ drop (length hb) (buf st), f2)"
      using b by (simp add: read_fd_eq f1_def f2_def hb_def)
    show ?thesis
    proof (cases "length hb = 12")
      case ne: False
      then show ?thesis
        unfolding if_not_P [OF False]
        by (simp add: visit_section_def ld ls rd EIF_SECTION_HEADER_SIZE_def)
    next
      case True
      have ps: "parse_eif_section_header (hb @ drop 12 (buf st)) 12 (stack_section_header m) = Inr sh"
        using True by (simp add: parse_eif_section_header_in section_header_at_append sh_def)
      show ?thesis
        unfolding if_not_P [OF False] using True
        by (simp add: visit_section_def ld ls rd EIF_SECTION_HEADER_SIZE_def ps st1_def Let_def)
    qed
  qed
  show ?thesis
    unfolding goal Let_def off_def [symmetric] p_def [symmetric]
      hb_def [symmetric] f2_def [symmetric] sh_def [symmetric] st1_def [symmetric] ..
qed

subsection \<open>one pass through the body of the loop\<close>

lemma visit_section_Inr:
  assumes v: "visit_section m h i st = Inr st'"
    and i1: "i < length (section_offsets h)" and i2: "i < length (section_sizes h)"
    and b: "12 \<le> length (buf st)"
  shows "st' = visited h i st"
    and "section_offsets h ! i = - 1 \<or> seek_pos (fd st) (section_offsets h ! i) = unat (section_offsets h ! i)"
    and "seek_pos (fd st) (section_offsets h ! i) + 12 \<le> length (contents (fd st))"
    and "metadata st = None \<and> section_type (section_header_at (take 12
            (drop (seek_pos (fd st) (section_offsets h ! i)) (contents (fd st))))) = 5 \<longrightarrow>
         seek_pos (fd st) (section_offsets h ! i) + 12
           + Suc (unat (section_size (section_header_at (take 12
               (drop (seek_pos (fd st) (section_offsets h ! i)) (contents (fd st)))))))
           \<le> length (contents (fd st))"
proof -
  define off where "off = section_offsets h ! i"
  define p where "p = seek_pos (fd st) off"
  define hb where "hb = take 12 (drop p (contents (fd st)))"
  define f2 where "f2 = (fd st)\<lparr>fpos := p + length hb, calls := calls (fd st) @ [Lseek off, Read 12]\<rparr>"
  define sh where "sh = section_header_at hb"
  define st1 where "st1 = st\<lparr>fd := f2, buf := hb @ drop 12 (buf st), printed := printed st @ [sh],
                  warnings := (if section_sizes h ! i \<noteq> section_size sh
                               then warnings st @ [(section_sizes h ! i, section_size sh)]
                               else warnings st)\<rparr>"
  define n where "n = unat (section_size sh)"
  have e: "visit_section m h i st =
       (if off \<noteq> - 1 \<and> (sint off < 0 \<or> seek_max (fd st) < sint off)
        then Inl (SeekFailed, (fd st)\<lparr>calls := calls (fd st) @ [Lseek off]\<rparr>)
        else if length hb \<noteq> 12 then Inl (TruncatedSectionHeader, f2)
        else if metadata st = None \<and> section_type sh = 5 then capture_metadata m sh st1
        else Inr st1)"
    unfolding visit_section_eq [OF i1 i2 b] Let_def off_def [symmetric] p_def [symmetric]
      hb_def [symmetric] f2_def [symmetric] sh_def [symmetric] st1_def [symmetric] ..
  have seek: "\<not> (off \<noteq> - 1 \<and> (sint off < 0 \<or> seek_max (fd st) < sint off))"
    using v unfolding e by (auto split: if_splits)
  have len: "length hb = 12"
    using v seek unfolding e by (auto split: if_splits)
  show "section_offsets h ! i = - 1 \<or> seek_pos (fd st) (section_offsets h ! i) = unat (section_offsets h ! i)"
    using seek by (auto simp: seek_pos_def off_def)
  show "seek_pos (fd st) (section_offsets h ! i) + 12 \<le> length (contents (fd st))"
    using len unfolding hb_def p_def off_def by simp
  have v': "(if metadata st = None \<and> section_type sh = 5 then capture_metadata m sh st1
        else Inr st1) = Inr st'"
    using v seek len unfolding e by (simp split: if_splits)
  have vis: "visited h i st =
      st\<lparr>fd := (fd st)\<lparr>fpos := (if metadata st = None \<and> section_type sh = 5 then p + 12 + Suc n else p + 12),
                     calls := calls (fd st) @ [Lseek off, Read 12]
                       @ (if metadata st = None \<and> section_type sh = 5 then [Read (Suc n)] else [])\<rparr>,
             buf := hb @ drop 12 (buf st),
             metadata := (if metadata st = None \<and> section_type sh = 5
                          then Some (take n (drop (p + 12) (contents (fd st))) @ [0])
                          else metadata st),
             printed := printed st @ [sh],
             warnings := (if section_sizes h ! i \<noteq> section_size sh
                          then warnings st @ [(section_sizes h ! i, section_size sh)]
                          else warnings st)\<rparr>"
    unfolding visited_def Let_def off_def [symmetric] p_def [symmetric]
      hb_def [symmetric] sh_def [symmetric] n_def [symmetric] ..
  have cap: "metadata st = None \<and> section_type sh = 5 \<longrightarrow>
      st' = st1\<lparr>fd := f2\<lparr>fpos := fpos f2 + Suc n, calls := calls f2 @ [Read (Suc n)]\<rparr>,
                   metadata := Some (take n (drop (fpos f2) (contents f2)) @ [0])\<rparr>
      \<and> length (take (Suc n) (drop (fpos f2) (contents f2))) = Suc n"
  proof
    assume "metadata st = None \<and> section_type sh = 5"
    then have c: "capture_metadata m sh st1 = Inr st'" using v' by simp
    have ne: "section_size sh \<noteq> - 1"
      using c by (auto simp: capture_metadata_wrap split: if_splits)
    have f1: "fd st1 = f2" by (simp add: st1_def)
    show "st' = st1\<lparr>fd := f2\<lparr>fpos := fpos f2 + Suc n, calls := calls f2 @ [Read (Suc n)]\<rparr>,
                   metadata := Some (take n (drop (fpos f2) (contents f2)) @ [0])\<rparr>
      \<and> length (take (Suc n) (drop (fpos f2) (contents f2))) = Suc n"
      using c unfolding capture_metadata_eq [OF ne] Let_def n_def [symmetric] f1
      by (simp split: if_splits)
  qed
  show "st' = visited h i st"
  proof (cases "metadata st = None \<and> section_type sh = 5")
    case False
    then have "st' = st1" using v' by (simp split: if_splits)
    then show ?thesis using False len unfolding vis st1_def f2_def by simp
  next
    case True
    with cap show ?thesis using len unfolding vis st1_def f2_def by simp
  qed
  show "metadata st = None \<and> section_type (section_header_at (take 12
            (drop (seek_pos (fd st) (section_offsets h ! i)) (contents (fd st))))) = 5 \<longrightarrow>
         seek_pos (fd st) (section_offsets h ! i) + 12
           + Suc (unat (section_size (section_header_at (take 12
               (drop (seek_pos (fd st) (section_offsets h ! i)) (contents (fd st)))))))
           \<le> length (contents (fd st))"
    unfolding off_def [symmetric] p_def [symmetric] hb_def [symmetric] sh_def [symmetric]
      n_def [symmetric]
  proof
    assume "metadata st = None \<and> section_type sh = 5"
    with cap have "length (take (Suc n) (drop (fpos f2) (contents f2))) = Suc n" by simp
    then show "p + 12 + Suc n \<le> length (contents (fd st))"
      using len unfolding f2_def by simp
  qed
qed

lemma visited_simps:
  "printed (visited h i st) =
     printed st @ [section_header_at (take 12 (drop (seek_pos (fd st) (section_offsets h ! i))
                                     (contents (fd st))))]"
  "contents (fd (visited h i st)) = contents (fd st)"
  "seek_max (fd (visited h i st)) = seek_max (fd st)"
  "buf (visited h i st) =
     take 12 (drop (seek_pos (fd st) (section_offsets h ! i)) (contents (fd st)))
     @ drop 12 (buf st)"
  by (simp_all add: visited_def Let_def)

lemma visited_kept:
  assumes "metadata st \<noteq> None
     \<or> section_type (section_header_at (take 12 (drop (seek_pos (fd st) (section_offsets h ! i))
          (contents (fd st))))) \<noteq> 5"
  shows "metadata (visited h i st) = metadata st"
    and "calls (fd (visited h i st)) = calls (fd st) @ [Lseek (section_offsets h ! i), Read 12]"
    and "fpos (fd (visited h i st)) = seek_pos (fd st) (section_offsets h ! i) + 12"
  using assms by (auto simp: visited_def Let_def)

lemma visited_captured:
  assumes "metadata st = None"
    and "section_type (section_header_at (take 12 (drop (seek_pos (fd st) (section_offsets h ! i))
          (contents (fd st))))) = 5"
  shows "metadata (visited h i st) =
      Some (take (unat (section_size (section_header_at
                (take 12 (drop (seek_pos (fd st) (section_offsets h ! i)) (contents (fd st)))))))
              (drop (seek_pos (fd st) (section_offsets h ! i) + 12) (contents (fd st))) @ [0])"
    and "calls (fd (visited h i st)) =
      calls (fd st) @ [Lseek (section_offsets h ! i), Read 12,
        Read (Suc (unat (section_size (section_header_at
                (take 12 (drop (seek_pos (fd st) (section_offsets h ! i)) (contents (fd st))))))))]"
  using assms by (auto simp: visited_def Let_def)

lemma visited_warnings:
  "warnings (visited h i st) =
     warnings st @ filter (\<lambda>(a, b). a \<noteq> b)
       [(section_sizes h ! i, section_size (last (printed (visited h i st))))]"
  by (simp add: visited_def Let_def)

lemma visit_section_seek_failed:
  assumes "i < length (section_offsets h)" and "i < length (section_sizes h)"
    and "12 \<le> length (buf st)"
    and "fst (lseek (fd st) (section_offsets h ! i)) \<noteq> section_offsets h ! i"
  shows "visit_section m h i st = Inl (SeekFailed, snd (lseek (fd st) (section_offsets h ! i)))"
proof -
  define off where "off = section_offsets h ! i"
  have c: "off \<noteq> - 1 \<and> (sint off < 0 \<or> seek_max (fd st) < sint off)"
    using assms(4) unfolding off_def [symmetric] lseek_eq by (auto split: if_splits)
  then have s: "snd (lseek (fd st) off) = (fd st)\<lparr>calls := calls (fd st) @ [Lseek off]\<rparr>"
    unfolding lseek_eq by auto
  show ?thesis
    unfolding visit_section_eq [OF assms(1-3)] Let_def off_def [symmetric] if_P [OF c] s ..
qed

lemma visit_section_truncated_header:
  assumes "i < length (section_offsets h)" and "i < length (section_sizes h)"
    and "12 \<le> length (buf st)"
    and "fst (lseek (fd st) (section_offsets h ! i)) = section_offsets h ! i"
    and "length (contents (fd st)) < seek_pos (fd st) (section_offsets h ! i) + 12"
  shows "\<exists>f. visit_section m h i st = Inl (TruncatedSectionHeader, f)"
proof -
  define off where "off = section_offsets h ! i"
  define hb where "hb = take 12 (drop (seek_pos (fd st) off) (contents (fd st)))"
  have c: "\<not> (off \<noteq> - 1 \<and> (sint off < 0 \<or> seek_max (fd st) < sint off))"
    using assms(4) unfolding off_def [symmetric] lseek_eq by (auto split: if_splits)
  have l: "length hb \<noteq> 12"
    using assms(5) unfolding off_def [symmetric] hb_def by simp
  show ?thesis
    unfolding visit_section_eq [OF assms(1-3)] Let_def off_def [symmetric] if_not_P [OF c]
      hb_def [symmetric] if_P [OF l] by blast
qed

lemma truncated_metadata_iff:
  assumes ne: "section_size sh \<noteq> - 1"
    and lt: "\<not> 2 ^ 63 \<le> Suc (unat (section_size sh))"
    and ok: "heap_ok m (Suc (unat (section_size sh)))"
  shows "(\<exists>f. capture_metadata m sh st = Inl (TruncatedMetadata, f))
     \<longleftrightarrow> length (contents (fd st)) < fpos (fd st) + Suc (unat (section_size sh))"
proof -
  define n where "n = unat (section_size sh)"
  define bs where "bs = take (Suc n) (drop (fpos (fd st)) (contents (fd st)))"
  have nn: "\<not> \<not> heap_ok m (Suc n)" using ok by (simp add: n_def)
  have l: "length bs \<noteq> Suc n \<longleftrightarrow> length (contents (fd st)) < fpos (fd st) + Suc n"
    unfolding bs_def by (simp add: min_def) linarith
  have e: "capture_metadata m sh st =
      (if 2 ^ 63 \<le> Suc n \<or> length bs \<noteq> Suc n
       then Inl (TruncatedMetadata,
                 (fd st)\<lparr>fpos := fpos (fd st) + length bs, calls := calls (fd st) @ [Read (Suc n)]\<rparr>)
       else Inr (st\<lparr>fd := (fd st)\<lparr>fpos := fpos (fd st) + length bs,
                                   calls := calls (fd st) @ [Read (Suc n)]\<rparr>,
                    metadata := Some (take n (drop (fpos (fd st)) (contents (fd st))) @ [0])\<rparr>))"
    unfolding capture_metadata_eq [OF ne] Let_def n_def [symmetric] bs_def [symmetric]
      if_not_P [OF nn] ..
  show ?thesis
  proof (cases "length bs \<noteq> Suc n")
    case True
    then have "2 ^ 63 \<le> Suc n \<or> length bs \<noteq> Suc n" by blast
    then show ?thesis
      unfolding e if_P [OF \<open>2 ^ 63 \<le> Suc n \<or> length bs \<noteq> Suc n\<close>] n_def [symmetric]
      using True l by blast
  next
    case False
    with lt have c: "\<not> (2 ^ 63 \<le> Suc n \<or> length bs \<noteq> Suc n)"
      unfolding n_def by blast
    show ?thesis
      unfolding e if_not_P [OF c] n_def [symmetric]
      using False l by blast
  qed
qed

subsection \<open>the loop\<close>

lemma section_loop_done: "\<not> i < unat (section_cnt h) \<Longrightarrow> section_loop m h i st = Inr st"
  by (subst section_loop.simps) simp

lemma section_loop_step:
  assumes "i < unat (section_cnt h)" and "section_loop m h i st = Inr st'"
  obtains s where "visit_section m h i st = Inr s" and "section_loop m h (Suc i) s = Inr st'"
  using assms by (subst (asm) section_loop.simps) (auto split: sum.splits)

lemma section_loop_aborts:
  assumes "i < unat (section_cnt h)" and "visit_section m h i st = Inl e"
  shows "section_loop m h i st = Inl e"
  using assms by (subst section_loop.simps) simp

lemma length_buf_visit:
  assumes "visit_section m h i st = Inr s"
    and "i < length (section_offsets h)" and "i < length (section_sizes h)"
    and "12 \<le> length (buf st)"
  shows "length (buf s) = length (buf st)"
  using visit_section_Inr(1,3) [OF assms] assms(4) by (simp add: visited_simps)

lemma section_loop_printed:
  assumes "section_loop m h i st = Inr st'"
    and "wf_EifHeader h" and "unat (section_cnt h) \<le> 32" and "12 \<le> length (buf st)"
  shows "\<exists>ds. printed st' = printed st @ ds \<and> length ds = unat (section_cnt h) - i
      \<and> contents (fd st') = contents (fd st)
      \<and> warnings st' = warnings st @ filter (\<lambda>(a, b). a \<noteq> b)
           (zip (drop i (take (unat (section_cnt h)) (section_sizes h))) (map section_size ds))"
  using assms
proof (induction m h i st rule: section_loop.induct)
  case (1 m h i st)
  show ?case
  proof (cases "i < unat (section_cnt h)")
    case False
    then have "st' = st" using "1.prems"(1) by (simp add: section_loop_done)
    with False show ?thesis by simp
  next
    case True
    from True "1.prems"(1) obtain s where v: "visit_section m h i st = Inr s"
      and l: "section_loop m h (Suc i) s = Inr st'"
      by (rule section_loop_step)
    have i32: "i < 32" using True "1.prems"(3) by simp
    then have i1: "i < length (section_offsets h)" and i2: "i < length (section_sizes h)"
      using "1.prems"(2) by (simp_all add: wf_EifHeader_def MAX_SECTIONS_def)
    note vs = visit_section_Inr [OF v i1 i2 "1.prems"(4)]
    have b: "12 \<le> length (buf s)"
      using length_buf_visit [OF v i1 i2 "1.prems"(4)] "1.prems"(4) by simp
    from "1.IH" [OF True v _ "1.prems"(2,3) b] l
    obtain ds where ds: "printed st' = printed s @ ds" "length ds = unat (section_cnt h) - Suc i"
      "contents (fd st') = contents (fd s)"
      "warnings st' = warnings s @ filter (\<lambda>(a, b). a \<noteq> b)
           (zip (drop (Suc i) (take (unat (section_cnt h)) (section_sizes h))) (map section_size ds))"
      by auto
    define d where "d = last (printed s)"
    have ps: "printed s = printed st @ [d]"
      unfolding d_def vs(1) by (simp add: visited_simps)
    have ws: "warnings s = warnings st @ filter (\<lambda>(a, b). a \<noteq> b) [(section_sizes h ! i, section_size d)]"
      unfolding d_def vs(1) by (rule visited_warnings)
    have dr: "drop i (take (unat (section_cnt h)) (section_sizes h))
        = section_sizes h ! i # drop (Suc i) (take (unat (section_cnt h)) (section_sizes h))"
      using True i2 by (simp add: Cons_nth_drop_Suc [symmetric])
    have "printed st' = printed st @ (d # ds)" using ds(1) ps by simp
    moreover have "length (d # ds) = unat (section_cnt h) - i" using ds(2) True by simp
    moreover have "contents (fd st') = contents (fd st)"
      using ds(3) unfolding vs(1) by (simp add: visited_simps)
    moreover have "warnings st' = warnings st @ filter (\<lambda>(a, b). a \<noteq> b)
           (zip (drop i (take (unat (section_cnt h)) (section_sizes h))) (map section_size (d # ds)))"
      unfolding ds(4) ws dr by simp
    ultimately show ?thesis by blast
  qed
qed

lemma section_loop_retained:
  assumes "section_loop m h i st = Inr st'" and "metadata st = Some x"
    and "wf_EifHeader h" and "unat (section_cnt h) \<le> 32" and "12 \<le> length (buf st)"
  shows "metadata st' = Some x
      \<and> calls (fd st') = calls (fd st)
           @ concat (map (\<lambda>j. [Lseek (section_offsets h ! j), Read 12]) [i..<unat (section_cnt h)])"
  using assms
proof (induction m h i st rule: section_loop.induct)
  case (1 m h i st)
  show ?case
  proof (cases "i < unat (section_cnt h)")
    case False
    then have "st' = st" using "1.prems"(1) by (simp add: section_loop_done)
    with False "1.prems"(2) show ?thesis by simp
  next
    case True
    from True "1.prems"(1) obtain s where v: "visit_section m h i st = Inr s"
      and l: "section_loop m h (Suc i) s = Inr st'"
      by (rule section_loop_step)
    have i32: "i < 32" using True "1.prems"(4) by simp
    then have i1: "i < length (section_offsets h)" and i2: "i < length (section_sizes h)"
      using "1.prems"(3) by (simp_all add: wf_EifHeader_def MAX_SECTIONS_def)
    note vs = visit_section_Inr [OF v i1 i2 "1.prems"(5)]
    have b: "12 \<le> length (buf s)"
      using length_buf_visit [OF v i1 i2 "1.prems"(5)] "1.prems"(5) by simp
    have k: "metadata st \<noteq> None
       \<or> section_type (section_header_at (take 12 (drop (seek_pos (fd st) (section_offsets h ! i))
          (contents (fd st))))) \<noteq> 5"
      using "1.prems"(2) by simp
    have ms: "metadata s = Some x"
      unfolding vs(1) visited_kept(1) [OF k] by (rule "1.prems"(2))
    have cs: "calls (fd s) = calls (fd st) @ [Lseek (section_offsets h ! i), Read 12]"
      unfolding vs(1) by (rule visited_kept(2) [OF k])
    have u: "[i..<unat (section_cnt h)] = i # [Suc i..<unat (section_cnt h)]"
      using True by (rule upt_conv_Cons)
    from "1.IH" [OF True v _ ms "1.prems"(3,4) b] l
    have "metadata st' = Some x"
      and "calls (fd st') = calls (fd s)
           @ concat (map (\<lambda>j. [Lseek (section_offsets h ! j), Read 12]) [Suc i..<unat (section_cnt h)])"
      by auto
    then show ?thesis unfolding cs u by simp
  qed
qed

lemma section_loop_first_metadata:
  assumes "section_loop m h i st = Inr st'" and "metadata st = None"
    and "wf_EifHeader h" and "unat (section_cnt h) \<le> 32" and "12 \<le> length (buf st)"
    and "printed st' = printed st @ ds"
    and "k < length ds" and "section_type (ds ! k) = 5"
    and "\<forall>j<k. section_type (ds ! j) \<noteq> 5"
  shows "\<exists>p. (section_offsets h ! (i + k) \<noteq> - 1 \<longrightarrow> p = unat (section_offsets h ! (i + k)))
      \<and> p + 12 + unat (section_size (ds ! k)) < length (contents (fd st))
      \<and> ds ! k = section_header_at (take 12 (drop p (contents (fd st))))
      \<and> metadata st' =
          Some (take (unat (section_size (ds ! k))) (drop (p + 12) (contents (fd st))) @ [0])
      \<and> calls (fd st') = calls (fd st)
           @ concat (map (\<lambda>j. [Lseek (section_offsets h ! j), Read 12]
                @ (if j = i + k then [Read (Suc (unat (section_size (ds ! k))))] else []))
              [i..<unat (section_cnt h)])"
  using assms
proof (induction m h i st arbitrary: ds k rule: section_loop.induct)
  case (1 m h i st)
  from section_loop_printed [OF "1.prems"(1,3,4,5)] "1.prems"(6)
  have lds: "length ds = unat (section_cnt h) - i" by auto
  with "1.prems"(7) have True: "i < unat (section_cnt h)" by simp
  from True "1.prems"(1) obtain s where v: "visit_section m h i st = Inr s"
    and l: "section_loop m h (Suc i) s = Inr st'"
    by (rule section_loop_step)
  have i32: "i < 32" using True "1.prems"(4) by simp
  then have i1: "i < length (section_offsets h)" and i2: "i < length (section_sizes h)"
    using "1.prems"(3) by (simp_all add: wf_EifHeader_def MAX_SECTIONS_def)
  note vs = visit_section_Inr [OF v i1 i2 "1.prems"(5)]
  have b: "12 \<le> length (buf s)"
    using length_buf_visit [OF v i1 i2 "1.prems"(5)] "1.prems"(5) by simp
  define q where "q = seek_pos (fd st) (section_offsets h ! i)"
  define d where "d = section_header_at (take 12 (drop q (contents (fd st))))"
  have ps: "printed s = printed st @ [d]"
    unfolding d_def q_def vs(1) by (simp add: visited_simps)
  from section_loop_printed [OF l "1.prems"(3,4) b]
  obtain ds' where ds': "printed st' = printed s @ ds'" by auto
  with ps "1.prems"(6) have dsd: "ds = d # ds'" by simp
  have u: "[i..<unat (section_cnt h)] = i # [Suc i..<unat (section_cnt h)]"
    using True by (rule upt_conv_Cons)
  have cf: "contents (fd s) = contents (fd st)"
    unfolding vs(1) by (simp add: visited_simps)
  show ?case
  proof (cases k)
    case 0
    then have t: "section_type d = 5" using "1.prems"(8) dsd by simp
    have e: "ds ! k = d" using 0 dsd by simp
    have ms: "metadata s = Some (take (unat (section_size d))
                (drop (q + 12) (contents (fd st))) @ [0])"
      unfolding vs(1)
      using visited_captured(1) [OF "1.prems"(2) t [unfolded d_def q_def]]
      by (simp only: d_def q_def)
    have cs: "calls (fd s) = calls (fd st) @ [Lseek (section_offsets h ! i), Read 12,
        Read (Suc (unat (section_size d)))]"
      unfolding vs(1)
      using visited_captured(2) [OF "1.prems"(2) t [unfolded d_def q_def]]
      by (simp only: d_def q_def)
    from section_loop_retained [OF l ms "1.prems"(3,4) b]
    have r: "metadata st' = metadata s"
      "calls (fd st') = calls (fd s)
           @ concat (map (\<lambda>j. [Lseek (section_offsets h ! j), Read 12]) [Suc i..<unat (section_cnt h)])"
      using ms by simp_all
    have mc: "map (\<lambda>j. [Lseek (section_offsets h ! j), Read 12]
                @ (if j = i + k then [Read (Suc (unat (section_size d)))] else []))
              [Suc i..<unat (section_cnt h)]
          = map (\<lambda>j. [Lseek (section_offsets h ! j), Read 12]) [Suc i..<unat (section_cnt h)]"
      using 0 by (intro map_cong refl) simp
    have p1: "section_offsets h ! (i + k) \<noteq> - 1 \<longrightarrow> q = unat (section_offsets h ! (i + k))"
      using vs(2) 0 by (auto simp: q_def)
    have p2: "q + 12 + unat (section_size d) < length (contents (fd st))"
      using vs(4) "1.prems"(2) t unfolding d_def q_def by simp
    have p4: "metadata st' = Some (take (unat (section_size d)) (drop (q + 12) (contents (fd st))) @ [0])"
      unfolding r ms ..
    have p5: "calls (fd st') = calls (fd st)
           @ concat (map (\<lambda>j. [Lseek (section_offsets h ! j), Read 12]
                @ (if j = i + k then [Read (Suc (unat (section_size d)))] else []))
              [i..<unat (section_cnt h)])"
      unfolding u list.map concat.simps mc r cs using 0 by simp
    show ?thesis
      unfolding e using p1 p2 d_def p4 p5 by blast
  next
    case (Suc k')
    have t: "section_type d \<noteq> 5"
      using "1.prems"(9) Suc dsd by auto
    then have kp: "metadata st \<noteq> None
       \<or> section_type (section_header_at (take 12 (drop (seek_pos (fd st) (section_offsets h ! i))
          (contents (fd st))))) \<noteq> 5"
      by (simp add: d_def q_def)
    have ms: "metadata s = None"
      unfolding vs(1) visited_kept(1) [OF kp] by (rule "1.prems"(2))
    have cs: "calls (fd s) = calls (fd st) @ [Lseek (section_offsets h ! i), Read 12]"
      unfolding vs(1) by (rule visited_kept(2) [OF kp])
    have k1: "k' < length ds'" using "1.prems"(7) Suc dsd by simp
    have k2: "section_type (ds' ! k') = 5" using "1.prems"(8) Suc dsd by simp
    have k3: "\<forall>j<k'. section_type (ds' ! j) \<noteq> 5"
      using "1.prems"(9) Suc dsd by auto
    have l': "section_loop m h (i + 1) s = Inr st'"
      using l by simp
    from "1.IH" [OF True v l' ms "1.prems"(3,4) b ds' k1 k2 k3]
    obtain p where r: "section_offsets h ! (i + 1 + k') \<noteq> - 1 \<longrightarrow> p = unat (section_offsets h ! (i + 1 + k'))"
      "p + 12 + unat (section_size (ds' ! k')) < length (contents (fd s))"
      "ds' ! k' = section_header_at (take 12 (drop p (contents (fd s))))"
      "metadata st' =
        Some (take (unat (section_size (ds' ! k'))) (drop (p + 12) (contents (fd s))) @ [0])"
      "calls (fd st') = calls (fd s)
           @ concat (map (\<lambda>j. [Lseek (section_offsets h ! j), Read 12]
                @ (if j = i + 1 + k' then [Read (Suc (unat (section_size (ds' ! k'))))] else []))
              [i + 1..<unat (section_cnt h)])"
      by blast
    have e: "ds ! k = ds' ! k'" using Suc dsd by simp
    have ik: "i + k = i + 1 + k'" using Suc by simp
    have p5: "calls (fd st') = calls (fd st)
           @ concat (map (\<lambda>j. [Lseek (section_offsets h ! j), Read 12]
                @ (if j = i + 1 + k' then [Read (Suc (unat (section_size (ds' ! k'))))] else []))
              [i..<unat (section_cnt h)])"
      unfolding u list.map concat.simps r(5) cs by simp
    show ?thesis
      unfolding e ik using r(1-4) p5 unfolding cf by blast
  qed
qed

lemma section_loop_no_metadata:
  assumes "section_loop m h i st = Inr st'" and "metadata st = None"
    and "wf_EifHeader h" and "unat (section_cnt h) \<le> 32" and "12 \<le> length (buf st)"
    and "printed st' = printed st @ ds"
    and "\<forall>d \<in> set ds. section_type d \<noteq> 5"
  shows "metadata st' = None"
  using assms
proof (induction m h i st arbitrary: ds rule: section_loop.induct)
  case (1 m h i st)
  show ?case
  proof (cases "i < unat (section_cnt h)")
    case False
    then have "st' = st" using "1.prems"(1) by (simp add: section_loop_done)
    with "1.prems"(2) show ?thesis by simp
  next
    case True
    from True "1.prems"(1) obtain s where v: "visit_section m h i st = Inr s"
      and l: "section_loop m h (Suc i) s = Inr st'"
      by (rule section_loop_step)
    have i32: "i < 32" using True "1.prems"(4) by simp
    then have i1: "i < length (section_offsets h)" and i2: "i < length (section_sizes h)"
      using "1.prems"(3) by (simp_all add: wf_EifHeader_def MAX_SECTIONS_def)
    note vs = visit_section_Inr [OF v i1 i2 "1.prems"(5)]
    have b: "12 \<le> length (buf s)"
      using length_buf_visit [OF v i1 i2 "1.prems"(5)] "1.prems"(5) by simp
    define d where "d = section_header_at (take 12 (drop (seek_pos (fd st) (section_offsets h ! i))
          (contents (fd st))))"
    have ps: "printed s = printed st @ [d]"
      unfolding d_def vs(1) by (simp add: visited_simps)
    from section_loop_printed [OF l "1.prems"(3,4) b]
    obtain ds' where ds': "printed st' = printed s @ ds'" by auto
    with ps "1.prems"(6) have dsd: "ds = d # ds'" by simp
    have t: "section_type d \<noteq> 5" using "1.prems"(7) dsd by simp
    then have kp: "metadata st \<noteq> None
       \<or> section_type (section_header_at (take 12 (drop (seek_pos (fd st) (section_offsets h ! i))
          (contents (fd st))))) \<noteq> 5"
      by (simp add: d_def)
    have ms: "metadata s = None"
      unfolding vs(1) visited_kept(1) [OF kp] by (rule "1.prems"(2))
    have a: "\<forall>d \<in> set ds'. section_type d \<noteq> 5" using "1.prems"(7) dsd by simp
    have l': "section_loop m h (i + 1) s = Inr st'" using l by simp
    from "1.IH" [OF True v l' ms "1.prems"(3,4) b ds' a] show ?thesis .
  qed
qed

lemma walk_first_metadata:
  assumes "section_loop m h 0 st = Inr st'" and "metadata st = None"
    and "wf_EifHeader h" and "unat (section_cnt h) \<le> 32" and "12 \<le> length (buf st)"
    and "printed st' = printed st @ ds"
    and "k < length ds" and "section_type (ds ! k) = 5"
    and "\<forall>j<k. section_type (ds ! j) \<noteq> 5"
  shows "\<exists>p. (section_offsets h ! k \<noteq> - 1 \<longrightarrow> p = unat (section_offsets h ! k))
      \<and> p + 12 + unat (section_size (ds ! k)) < length (contents (fd st))
      \<and> ds ! k = section_header_at (take 12 (drop p (contents (fd st))))
      \<and> metadata st' =
          Some (take (unat (section_size (ds ! k))) (drop (p + 12) (contents (fd st))) @ [0])
      \<and> calls (fd st') = calls (fd st)
           @ concat (map (\<lambda>j. [Lseek (section_offsets h ! j), Read 12]
                @ (if j = k then [Read (Suc (unat (section_size (ds ! k))))] else []))
              [0..<unat (section_cnt h)])"
  using section_loop_first_metadata [OF assms] by simp

lemma take_drop_update_far:
  "p + n \<le> P \<Longrightarrow> take n (drop p (xs[P := v])) = take n (drop p xs)"
  by (simp add: drop_update_swap)

lemma section_loop_nth_printed:
  assumes "section_loop m h i st = Inr st'"
    and "wf_EifHeader h" and "unat (section_cnt h) \<le> 32" and "12 \<le> length (buf st)"
    and "printed st' = printed st @ ds"
    and "k < length ds" and "section_offsets h ! (i + k) \<noteq> - 1"
  shows "ds ! k = section_header_at
           (take 12 (drop (unat (section_offsets h ! (i + k))) (contents (fd st))))"
  using assms
proof (induction m h i st arbitrary: ds k rule: section_loop.induct)
  case (1 m h i st)
  from section_loop_printed [OF "1.prems"(1,2,3,4)] "1.prems"(5)
  have lds: "length ds = unat (section_cnt h) - i" by auto
  with "1.prems"(6) have True: "i < unat (section_cnt h)" by simp
  from True "1.prems"(1) obtain s where v: "visit_section m h i st = Inr s"
    and l: "section_loop m h (Suc i) s = Inr st'"
    by (rule section_loop_step)
  have i32: "i < 32" using True "1.prems"(3) by simp
  then have i1: "i < length (section_offsets h)" and i2: "i < length (section_sizes h)"
    using "1.prems"(2) by (simp_all add: wf_EifHeader_def MAX_SECTIONS_def)
  note vs = visit_section_Inr [OF v i1 i2 "1.prems"(4)]
  have b: "12 \<le> length (buf s)"
    using length_buf_visit [OF v i1 i2 "1.prems"(4)] "1.prems"(4) by simp
  define q where "q = seek_pos (fd st) (section_offsets h ! i)"
  define d where "d = section_header_at (take 12 (drop q (contents (fd st))))"
  have ps: "printed s = printed st @ [d]"
    unfolding d_def q_def vs(1) by (simp add: visited_simps)
  from section_loop_printed [OF l "1.prems"(2,3) b]
  obtain ds' where ds': "printed st' = printed s @ ds'" by auto
  with ps "1.prems"(5) have dsd: "ds = d # ds'" by simp
  have cf: "contents (fd s) = contents (fd st)"
    unfolding vs(1) by (simp add: visited_simps)
  show ?case
  proof (cases k)
    case 0
    with "1.prems"(7) vs(2) have "q = unat (section_offsets h ! (i + k))"
      by (auto simp: q_def)
    with 0 dsd show ?thesis by (simp add: d_def)
  next
    case (Suc k')
    have k1: "k' < length ds'" using "1.prems"(6) Suc dsd by simp
    have l': "section_loop m h (i + 1) s = Inr st'"
      using l by simp
    have ik: "i + k = i + 1 + k'" using Suc by simp
    have o: "section_offsets h ! (i + 1 + k') \<noteq> - 1"
      using "1.prems"(7) unfolding ik .
    from "1.IH" [OF True v l' "1.prems"(2,3) b ds' k1 o]
    have "ds' ! k' = section_header_at
           (take 12 (drop (unat (section_offsets h ! (i + 1 + k'))) (contents (fd s))))" .
    then show ?thesis
      unfolding ik cf using Suc dsd by simp
  qed
qed

subsection \<open>the declared sizes only decide the warnings\<close>

lemma capture_metadata_upd_warnings:
  "capture_metadata m sh (s\<lparr>warnings := w\<rparr>) =
     (case capture_metadata m sh s of Inl e \<Rightarrow> Inl e | Inr r \<Rightarrow> Inr (r\<lparr>warnings := w\<rparr>))"
  by (simp add: capture_metadata_def Let_def split: option.splits sum.splits prod.splits)

lemma visit_section_sizes:
  assumes "length zs = length (section_sizes h)"
  shows "without_warnings (visit_section m (h\<lparr>section_sizes := zs\<rparr>) i (s\<lparr>warnings := w\<rparr>))
       = without_warnings (visit_section m h i s)"
  using assms
  by (simp add: visit_section_def without_warnings_def capture_metadata_upd_warnings load_at_def
      Let_def split: sum.splits prod.splits)

lemma without_warnings_eq_Inl:
  "without_warnings r = without_warnings (Inl e) \<Longrightarrow> r = Inl e"
  by (simp add: without_warnings_def split: sum.splits)

lemma without_warnings_eq_Inr:
  assumes a: "without_warnings r = without_warnings (Inr s)"
  shows "\<exists>w. r = Inr (s\<lparr>warnings := w\<rparr>)"
proof (cases r)
  case (Inl e)
  with a show ?thesis by (simp add: without_warnings_def)
next
  case (Inr t)
  with a have "t\<lparr>warnings := []\<rparr> = s\<lparr>warnings := []\<rparr>"
    by (simp add: without_warnings_def)
  then have "t\<lparr>warnings := [], warnings := warnings t\<rparr> = s\<lparr>warnings := [], warnings := warnings t\<rparr>"
    by (rule arg_cong)
  then have "t = s\<lparr>warnings := warnings t\<rparr>" by simp
  with Inr show ?thesis by blast
qed

lemma section_loop_sizes:
  assumes "length zs = length (section_sizes h)"
  shows "without_warnings (section_loop m (h\<lparr>section_sizes := zs\<rparr>) i (s\<lparr>warnings := w\<rparr>))
       = without_warnings (section_loop m h i s)"
  using assms
proof (induction m h i s arbitrary: w rule: section_loop.induct)
  case (1 m h i s)
  let ?h = "h\<lparr>section_sizes := zs\<rparr>"
  show ?case
  proof (cases "i < unat (section_cnt h)")
    case False
    then show ?thesis
      by (simp add: section_loop_done without_warnings_def)
  next
    case True
    note vz = visit_section_sizes [OF "1.prems", where m = m and i = i and s = s and w = w]
    show ?thesis
    proof (cases "visit_section m h i s")
      case (Inl e)
      with vz have "visit_section m ?h i (s\<lparr>warnings := w\<rparr>) = Inl e"
        by (simp add: without_warnings_eq_Inl)
      with Inl True show ?thesis
        by (subst (1 2) section_loop.simps) simp
    next
      case (Inr s1)
      with vz obtain w1 where v1: "visit_section m ?h i (s\<lparr>warnings := w\<rparr>) = Inr (s1\<lparr>warnings := w1\<rparr>)"
        using without_warnings_eq_Inr by metis
      have "without_warnings (section_loop m ?h (i + 1) (s1\<lparr>warnings := w1\<rparr>))
          = without_warnings (section_loop m h (i + 1) s1)"
        using True Inr "1.prems" by (rule "1.IH")
      with Inr v1 True show ?thesis
        by (subst (1 2) section_loop.simps) simp
    qed
  qed
qed

subsection \<open>from the file to the loop\<close>

lemma parse_eif_file_eq:
  assumes f: "files m path = Some c" and ok: "heap_ok m 548" and len: "548 \<le> length c"
    and wf: "wf_EifHeader (stack_header m)"
  shows "parse_eif_file m path =
     (case walk_sections m (header_at c)
             \<lparr>fd = \<lparr>contents = c, fpos = 548, seek_max = max_offset m, calls = [Read 548]\<rparr>,
              buf = take 548 c, metadata = None, printed = [], warnings = []\<rparr> of
        Inl (e, f2) \<Rightarrow> Inl (e, Some f2)
      | Inr st \<Rightarrow> Inr (header_at c, st, map_option metadata_text (metadata st)))"
proof -
  define b0 where "b0 = map (heap_fill m) [0..<548]"
  define f0 where "f0 = \<lparr>contents = c, fpos = 0, seek_max = max_offset m, calls = []\<rparr>"
  have lb: "length b0 = 548" by (simp add: b0_def)
  have ml: "malloc m EIF_HEADER_SIZE = Some b0"
    using ok by (simp add: malloc_def EIF_HEADER_SIZE_def b0_def)
  have rd: "read_fd f0 b0 EIF_HEADER_SIZE =
      Inr (548, take 548 c, \<lparr>contents = c, fpos = 548, seek_max = max_offset m, calls = [Read 548]\<rparr>)"
    using len lb by (simp add: read_fd_eq EIF_HEADER_SIZE_def f0_def min_def)
  have ph: "parse_eif_header (take 548 c) 548 (stack_header m) = Inr (header_at c)"
    using wf len by (simp add: parse_eif_header_in header_at_cong [of "take 548 c" c])
  show ?thesis
    unfolding parse_eif_file_def f option.case Let_def f0_def [symmetric] ml rd
    by (simp add: ph EIF_HEADER_SIZE_def)
qed

section \<open>The concrete inputs, evaluated\<close>

lemma wf_examples:
  "wf_EifHeader tail_header" "wf_EifHeader seek_header" "wf_EifHeader overlap_header"
  by (simp_all add: wf_EifHeader_def MAX_SECTIONS_def tail_header_def seek_header_def
      overlap_header_def)

lemma length_examples:
  "length tail_bytes = 548" "length seek_bytes = 548" "length overlap_bytes = 548"
  by (simp_all add: length_encode_header wf_examples tail_bytes_def seek_bytes_def
      overlap_bytes_def)

lemmas walk_eval =
  walk_sections_def MAX_SECTIONS_def section_loop.simps visit_section_eq
  capture_metadata_eq seek_pos_def section_header_at_def be16_at_def be64_at_def
  opened_def demo_machine_def Let_def

lemma demo_walk: "walk_sections demo_machine demo_header (opened demo_image) = Inr demo_final"
  by (simp add: walk_sections_def MAX_SECTIONS_def section_loop.simps visit_section_eq
      capture_metadata_eq seek_pos_def section_header_at_def be16_at_def be64_at_def
      opened_def demo_image_def demo_body_def demo_machine_def
      demo_header_def demo_final_def length_demo_bytes Let_def)

lemma demo_walk_b:
  "walk_sections demo_machine demo_header (opened (demo_image[596 := 77])) = Inr demo_final_b"
  by (simp add: walk_sections_def MAX_SECTIONS_def section_loop.simps visit_section_eq
      capture_metadata_eq seek_pos_def section_header_at_def be16_at_def be64_at_def
      opened_def demo_image_def demo_body_def demo_machine_def list_update_append
      demo_header_def demo_final_b_def length_demo_bytes Let_def)

lemma overlap_walk_a:
  "walk_sections demo_machine overlap_header (opened overlap_image) = Inr overlap_final_a"
  by (simp add: walk_eval overlap_image_def overlap_header_def overlap_final_a_def
      length_examples)

lemma overlap_walk_b:
  "walk_sections demo_machine overlap_header (opened (overlap_image[562 := 5]))
     = Inr overlap_final_b"
  by (simp add: walk_eval overlap_image_def overlap_header_def overlap_final_b_def
      length_examples list_update_append)

lemma header_at_examples:
  "header_at demo_image = demo_header" "header_at tail_image = tail_header"
  "header_at seek_image = seek_header"
  by (simp_all add: demo_image_def demo_bytes_def tail_image_def tail_bytes_def seek_image_def
      seek_bytes_def header_at_encode wf_demo_header wf_examples)

lemma parse_eif_file_demo_machine:
  assumes "files demo_machine path = Some c" and "548 \<le> length c"
  shows "parse_eif_file demo_machine path =
     (case walk_sections demo_machine (header_at c) (opened c) of
        Inl (e, f2) \<Rightarrow> Inl (e, Some f2)
      | Inr st \<Rightarrow> Inr (header_at c, st, map_option metadata_text (metadata st)))"
proof -
  have "heap_ok demo_machine 548" "wf_EifHeader (stack_header demo_machine)"
    "max_offset demo_machine = 9223372036854775807"
    by (simp_all add: demo_machine_def wf_junk_header)
  with parse_eif_file_eq [OF assms(1) _ assms(2)] show ?thesis
    by (simp add: opened_def)
qed

lemma tail_walk:
  "walk_sections demo_machine tail_header (opened tail_image) =
     Inl (TruncatedMetadata,
          \<lparr>contents = tail_image, fpos = 562, seek_max = 9223372036854775807,
           calls = [Read 548, Lseek 548, Read 12, Read 3]\<rparr>)"
  by (simp add: walk_eval tail_image_def tail_header_def length_examples)

lemma seek_walk:
  "walk_sections demo_machine seek_header (opened seek_image) = Inr seek_final"
  by (simp add: walk_eval seek_image_def seek_header_def seek_final_def length_examples)

lemma opened_simps:
  "12 \<le> length (buf (opened demo_image))" "metadata (opened demo_image) = None"
  "printed (opened demo_image) = []" "warnings (opened demo_image) = []"
  "contents (fd (opened demo_image)) = demo_image"
  "calls (fd (opened demo_image)) = [Read 548]"
  "12 \<le> length (buf (opened (demo_image[596 := 77])))"
  "metadata (opened (demo_image[596 := 77])) = None"
  "printed (opened (demo_image[596 := 77])) = []"
  "contents (fd (opened (demo_image[596 := 77]))) = demo_image[596 := 77]"
  by (simp_all add: opened_def demo_image_def length_demo_bytes)

section \<open>Walking the sections: the properties\<close>

text \<open>
  C6. When the header declares more than 32 sections, \<open>walk_sections\<close> fails with
  \<open>TooManySections\<close> and hands the source back as it received it: position and trace of
  calls unchanged, so no seek and no read was made.
\<close>

theorem too_many_sections_before_any_io:
  "MAX_SECTIONS < unat (section_cnt h) \<Longrightarrow> walk_sections m h st = Inl (TooManySections, fd st)"
  by (simp add: walk_sections_def)

theorem too_many_sections_before_any_io_witness:
  "MAX_SECTIONS < unat (section_cnt (demo_header\<lparr>section_cnt := 33\<rparr>))
   \<and> walk_sections demo_machine (demo_header\<lparr>section_cnt := 33\<rparr>) (opened demo_image)
       = Inl (TooManySections, fd (opened demo_image))"
  using too_many_sections_before_any_io
    [of "demo_header\<lparr>section_cnt := 33\<rparr>" demo_machine "opened demo_image"]
  by (simp add: MAX_SECTIONS_def)

text \<open>
  C4. A walk that starts with no metadata retained and succeeds has decoded and printed
  the header of every declared section, in order. If some of them have type 5, the
  retained metadata are the payload of the first of these, as it stands in the source
  after the 12 bytes of its section header, followed by a null byte; and apart from the
  seek and the 12-byte read of each section, the only call on the source is the read of
  this payload, so the payload of a later section of type 5 is neither read nor stored.
  The section header stands at the declared offset; for the offset \<open>0xFFFFFFFFFFFFFFFF\<close>,
  which \<open>lseek\<close> refuses with the value that the comparison takes for this offset, it
  stands where the source was positioned before (\<open>p\<close> below).
\<close>

theorem first_metadata_section_is_retained:
  assumes w: "walk_sections m h st = Inr st'" and wf: "wf_EifHeader h"
    and b: "12 \<le> length (buf st)" and md: "metadata st = None"
  shows "\<exists>ds. printed st' = printed st @ ds \<and> length ds = unat (section_cnt h)
     \<and> (\<forall>i<length ds. section_type (ds ! i) = 5 \<and> (\<forall>j<i. section_type (ds ! j) \<noteq> 5) \<longrightarrow>
         (\<exists>p. (section_offsets h ! i \<noteq> - 1 \<longrightarrow> p = unat (section_offsets h ! i))
            \<and> p + 12 + unat (section_size (ds ! i)) < length (contents (fd st))
            \<and> parse_eif_section_header (take 12 (drop p (contents (fd st)))) 12
                  (stack_section_header m) = Inr (ds ! i)
            \<and> metadata st' =
                Some (take (unat (section_size (ds ! i))) (drop (p + 12) (contents (fd st))) @ [0])
            \<and> calls (fd st') = calls (fd st)
                 @ concat (map (\<lambda>j. [Lseek (section_offsets h ! j), Read 12]
                      @ (if j = i then [Read (Suc (unat (section_size (ds ! i))))] else []))
                    [0..<unat (section_cnt h)])))"
proof -
  from w have c: "unat (section_cnt h) \<le> 32" and l: "section_loop m h 0 st = Inr st'"
    by (simp_all add: walk_sections_def MAX_SECTIONS_def split: if_splits)
  from section_loop_printed [OF l wf c b]
  obtain ds where ds: "printed st' = printed st @ ds" "length ds = unat (section_cnt h)"
    by auto
  have "\<exists>p. (section_offsets h ! i \<noteq> - 1 \<longrightarrow> p = unat (section_offsets h ! i))
            \<and> p + 12 + unat (section_size (ds ! i)) < length (contents (fd st))
            \<and> parse_eif_section_header (take 12 (drop p (contents (fd st)))) 12
                  (stack_section_header m) = Inr (ds ! i)
            \<and> metadata st' =
                Some (take (unat (section_size (ds ! i))) (drop (p + 12) (contents (fd st))) @ [0])
            \<and> calls (fd st') = calls (fd st)
                 @ concat (map (\<lambda>j. [Lseek (section_offsets h ! j), Read 12]
                      @ (if j = i then [Read (Suc (unat (section_size (ds ! i))))] else []))
                    [0..<unat (section_cnt h)])"
    if i: "i < length ds" "section_type (ds ! i) = 5" "\<forall>j<i. section_type (ds ! j) \<noteq> 5" for i
  proof -
    from walk_first_metadata [OF l md wf c b ds(1) i]
    obtain p where p: "section_offsets h ! i \<noteq> - 1 \<longrightarrow> p = unat (section_offsets h ! i)"
      "p + 12 + unat (section_size (ds ! i)) < length (contents (fd st))"
      "ds ! i = section_header_at (take 12 (drop p (contents (fd st))))"
      "metadata st' =
          Some (take (unat (section_size (ds ! i))) (drop (p + 12) (contents (fd st))) @ [0])"
      "calls (fd st') = calls (fd st)
           @ concat (map (\<lambda>j. [Lseek (section_offsets h ! j), Read 12]
                @ (if j = i then [Read (Suc (unat (section_size (ds ! i))))] else []))
              [0..<unat (section_cnt h)])"
      by blast
    have "length (take 12 (drop p (contents (fd st)))) = 12"
      using p(2) by simp
    then have "parse_eif_section_header (take 12 (drop p (contents (fd st)))) 12
                  (stack_section_header m) = Inr (ds ! i)"
      unfolding p(3) by (intro parse_eif_section_header_in) simp_all
    with p(1,2,4,5) show ?thesis by blast
  qed
  with ds show ?thesis by blast
qed

theorem first_metadata_section_is_retained_witness:
  "walk_sections demo_machine demo_header (opened demo_image) = Inr demo_final
   \<and> wf_EifHeader demo_header \<and> 12 \<le> length (buf (opened demo_image))
   \<and> metadata (opened demo_image) = None
   \<and> length (printed demo_final) = 3
   \<and> section_type (printed demo_final ! 0) \<noteq> 5
   \<and> section_type (printed demo_final ! 1) = 5
   \<and> section_type (printed demo_final ! 2) = 5
   \<and> metadata demo_final = Some (take 20 (drop (564 + 12) demo_image) @ [0])
   \<and> calls (fd demo_final) =
        [Read 548, Lseek 548, Read 12, Lseek 564, Read 12, Read 21, Lseek 596, Read 12]"
proof -
  from first_metadata_section_is_retained
    [OF demo_walk wf_demo_header opened_simps(1) opened_simps(2)]
  obtain ds where ds: "printed demo_final = printed (opened demo_image) @ ds"
    "length ds = unat (section_cnt demo_header)"
    and r: "\<forall>i<length ds. section_type (ds ! i) = 5 \<and> (\<forall>j<i. section_type (ds ! j) \<noteq> 5) \<longrightarrow>
         (\<exists>p. (section_offsets demo_header ! i \<noteq> - 1 \<longrightarrow> p = unat (section_offsets demo_header ! i))
            \<and> p + 12 + unat (section_size (ds ! i)) < length (contents (fd (opened demo_image)))
            \<and> parse_eif_section_header (take 12 (drop p (contents (fd (opened demo_image))))) 12
                  (stack_section_header demo_machine) = Inr (ds ! i)
            \<and> metadata demo_final =
                Some (take (unat (section_size (ds ! i)))
                        (drop (p + 12) (contents (fd (opened demo_image)))) @ [0])
            \<and> calls (fd demo_final) = calls (fd (opened demo_image))
                 @ concat (map (\<lambda>j. [Lseek (section_offsets demo_header ! j), Read 12]
                      @ (if j = i then [Read (Suc (unat (section_size (ds ! i))))] else []))
                    [0..<unat (section_cnt demo_header)]))"
    by blast
  have dsp: "ds = printed demo_final"
    using ds(1) by (simp add: opened_simps)
  have t: "section_type (printed demo_final ! 0) \<noteq> 5" "section_type (printed demo_final ! 1) = 5"
    "section_type (printed demo_final ! 2) = 5" "length (printed demo_final) = 3"
    by (simp_all add: demo_final_def)
  have o: "section_offsets demo_header ! 1 = 564" "section_offsets demo_header ! 1 \<noteq> - 1"
    "section_size (printed demo_final ! 1) = 20" "unat (section_cnt demo_header) = 3"
    "section_offsets demo_header ! 0 = 548" "section_offsets demo_header ! 2 = 596"
    by (simp_all add: demo_header_def demo_final_def)
  have "1 < length ds \<and> section_type (ds ! 1) = 5 \<and> (\<forall>j<1. section_type (ds ! j) \<noteq> 5)"
    using t by (simp add: dsp)
  with r obtain p where p: "section_offsets demo_header ! 1 \<noteq> - 1 \<longrightarrow> p = unat (section_offsets demo_header ! 1)"
      "metadata demo_final =
                Some (take (unat (section_size (ds ! 1)))
                        (drop (p + 12) (contents (fd (opened demo_image)))) @ [0])"
      "calls (fd demo_final) = calls (fd (opened demo_image))
                 @ concat (map (\<lambda>j. [Lseek (section_offsets demo_header ! j), Read 12]
                      @ (if j = 1 then [Read (Suc (unat (section_size (ds ! 1))))] else []))
                    [0..<unat (section_cnt demo_header)])"
    by blast
  from p(1) o have p564: "p = 564" by simp
  have m: "metadata demo_final = Some (take 20 (drop (564 + 12) demo_image) @ [0])"
    using p(2) unfolding p564 dsp o(3) opened_simps(5) by simp
  have "[0..<3] = [0, 1, 2]" by (simp add: upt_rec)
  then have c: "calls (fd demo_final) =
        [Read 548, Lseek 548, Read 12, Lseek 564, Read 12, Read 21, Lseek 596, Read 12]"
    using p(3) unfolding dsp o(3) o(4) opened_simps(6) by (simp add: o o(1) [unfolded One_nat_def])
  from demo_walk wf_demo_header opened_simps(1,2) t m c show ?thesis by blast
qed

text \<open>
  C5. The sizes declared in the file header decide nothing but the warnings: with any
  other 32 declared sizes the walk fails in the same way or ends in the same state, up
  to the warnings. A walk that succeeds has added one warning for each section whose
  declared size differs from the size decoded from its section header, in order, holding
  the declared size and the decoded one; and the payload retained for the first section
  of type 5 has the length decoded from its section header, whatever the declared size.
\<close>

theorem size_mismatch_only_warns:
  assumes wf: "wf_EifHeader h" and zs: "length zs = MAX_SECTIONS" and b: "12 \<le> length (buf st)"
  shows "without_warnings (walk_sections m (h\<lparr>section_sizes := zs\<rparr>) st)
           = without_warnings (walk_sections m h st)
     \<and> (\<forall>st'. walk_sections m h st = Inr st' \<longrightarrow>
          (\<exists>ds. printed st' = printed st @ ds \<and> length ds = unat (section_cnt h)
             \<and> warnings st' = warnings st @ filter (\<lambda>(a, b). a \<noteq> b)
                  (zip (take (unat (section_cnt h)) (section_sizes h)) (map section_size ds))
             \<and> (\<forall>i<length ds. metadata st = None \<and> section_type (ds ! i) = 5
                    \<and> (\<forall>j<i. section_type (ds ! j) \<noteq> 5) \<longrightarrow>
                  (\<exists>x. metadata st' = Some (x @ [0])
                       \<and> length x = unat (section_size (ds ! i))))))"
proof (intro conjI allI impI)
  have lz: "length zs = length (section_sizes h)"
    using wf zs by (simp add: wf_EifHeader_def)
  from section_loop_sizes [OF lz, where m = m and i = 0 and s = st and w = "warnings st"]
  show "without_warnings (walk_sections m (h\<lparr>section_sizes := zs\<rparr>) st)
           = without_warnings (walk_sections m h st)"
    by (simp add: walk_sections_def)
next
  fix st'
  assume w: "walk_sections m h st = Inr st'"
  then have c: "unat (section_cnt h) \<le> 32" and l: "section_loop m h 0 st = Inr st'"
    by (simp_all add: walk_sections_def MAX_SECTIONS_def split: if_splits)
  from section_loop_printed [OF l wf c b]
  obtain ds where ds: "printed st' = printed st @ ds" "length ds = unat (section_cnt h)"
    "warnings st' = warnings st @ filter (\<lambda>(a, b). a \<noteq> b)
           (zip (take (unat (section_cnt h)) (section_sizes h)) (map section_size ds))"
    by auto
  have "\<exists>x. metadata st' = Some (x @ [0]) \<and> length x = unat (section_size (ds ! i))"
    if i: "i < length ds" "metadata st = None \<and> section_type (ds ! i) = 5
                    \<and> (\<forall>j<i. section_type (ds ! j) \<noteq> 5)" for i
  proof -
    from i(2) have md: "metadata st = None" and t: "section_type (ds ! i) = 5"
      and f: "\<forall>j<i. section_type (ds ! j) \<noteq> 5" by simp_all
    from walk_first_metadata [OF l md wf c b ds(1) i(1) t f]
    obtain p where p: "p + 12 + unat (section_size (ds ! i)) < length (contents (fd st))"
      "metadata st' =
          Some (take (unat (section_size (ds ! i))) (drop (p + 12) (contents (fd st))) @ [0])"
      by blast
    have "length (take (unat (section_size (ds ! i))) (drop (p + 12) (contents (fd st))))
        = unat (section_size (ds ! i))"
      using p(1) by simp
    with p(2) show ?thesis by blast
  qed
  with ds show "\<exists>ds. printed st' = printed st @ ds \<and> length ds = unat (section_cnt h)
             \<and> warnings st' = warnings st @ filter (\<lambda>(a, b). a \<noteq> b)
                  (zip (take (unat (section_cnt h)) (section_sizes h)) (map section_size ds))
             \<and> (\<forall>i<length ds. metadata st = None \<and> section_type (ds ! i) = 5
                    \<and> (\<forall>j<i. section_type (ds ! j) \<noteq> 5) \<longrightarrow>
                  (\<exists>x. metadata st' = Some (x @ [0])
                       \<and> length x = unat (section_size (ds ! i))))"
    by blast
qed

theorem size_mismatch_only_warns_witness:
  "wf_EifHeader demo_header \<and> length ([4, 20, 3] @ replicate 29 (0::u64)) = MAX_SECTIONS
   \<and> 12 \<le> length (buf (opened demo_image))
   \<and> section_sizes demo_header ! 1 = 10
   \<and> walk_sections demo_machine demo_header (opened demo_image) = Inr demo_final
   \<and> without_warnings (walk_sections demo_machine
          (demo_header\<lparr>section_sizes := [4, 20, 3] @ replicate 29 0\<rparr>) (opened demo_image))
       = Inr (demo_final\<lparr>warnings := []\<rparr>)
   \<and> section_size (printed demo_final ! 1) = 20
   \<and> warnings demo_final = [(10, 20)]
   \<and> (\<exists>x. metadata demo_final = Some (x @ [0]) \<and> length x = 20)"
proof -
  have z: "length ([4, 20, 3] @ replicate 29 (0::u64)) = MAX_SECTIONS"
    by (simp add: MAX_SECTIONS_def)
  note th = size_mismatch_only_warns [OF wf_demo_header z opened_simps(1), of demo_machine]
  from th have a: "without_warnings (walk_sections demo_machine
          (demo_header\<lparr>section_sizes := [4, 20, 3] @ replicate 29 0\<rparr>) (opened demo_image))
       = Inr (demo_final\<lparr>warnings := []\<rparr>)"
    by (simp add: demo_walk without_warnings_def)
  from th demo_walk obtain ds where ds: "printed demo_final = printed (opened demo_image) @ ds"
    "warnings demo_final = warnings (opened demo_image) @ filter (\<lambda>(a, b). a \<noteq> b)
        (zip (take (unat (section_cnt demo_header)) (section_sizes demo_header))
             (map section_size ds))"
    and r: "\<forall>i<length ds. metadata (opened demo_image) = None \<and> section_type (ds ! i) = 5
                    \<and> (\<forall>j<i. section_type (ds ! j) \<noteq> 5) \<longrightarrow>
                  (\<exists>x. metadata demo_final = Some (x @ [0])
                       \<and> length x = unat (section_size (ds ! i)))"
    by blast
  have dsp: "ds = printed demo_final"
    using ds(1) by (simp add: opened_simps)
  have t: "section_type (printed demo_final ! 0) \<noteq> 5" "section_type (printed demo_final ! 1) = 5"
    "length (printed demo_final) = 3" "section_size (printed demo_final ! 1) = 20"
    "map section_size (printed demo_final) = [4, 20, 3]"
    by (simp_all add: demo_final_def)
  have o: "section_sizes demo_header ! 1 = 10"
    "take (unat (section_cnt demo_header)) (section_sizes demo_header) = [4, 10, 3]"
    by (simp_all add: demo_header_def)
  have w: "warnings demo_final = [(10, 20)]"
    using ds(2) by (simp add: dsp t o opened_simps)
  have "1 < length ds \<and> metadata (opened demo_image) = None \<and> section_type (ds ! 1) = 5
      \<and> (\<forall>j<1. section_type (ds ! j) \<noteq> 5)"
    using t by (simp add: dsp opened_simps)
  with r have "\<exists>x. metadata demo_final = Some (x @ [0]) \<and> length x = unat (section_size (ds ! 1))"
    by blast
  then have x: "\<exists>x. metadata demo_final = Some (x @ [0]) \<and> length x = 20"
    unfolding dsp t(4) by simp
  from wf_demo_header z opened_simps(1) o(1) demo_walk a t(4) w x show ?thesis by blast
qed

text \<open>
  C1. \<open>capture_metadata\<close> asks the source for \<open>section_size + 1\<close> bytes, one more than the
  payload, and puts the null byte over the last of them. In \<open>tail.eif\<close> the only section
  is a metadata section whose 2 payload bytes are the last bytes of the file: its section
  header is decoded, both payload bytes are there, and the run ends with
  \<open>TruncatedMetadata\<close> after a read of 3 bytes.
\<close>

theorem metadata_at_end_of_file_is_rejected:
  "length tail_image = 548 + 12 + 2
   \<and> parse_eif_section_header (take 12 (drop 548 tail_image)) 12
         (stack_section_header demo_machine)
       = Inr \<lparr>section_type = 5, section_flags = 0, section_size = 2\<rparr>
   \<and> parse_eif_file demo_machine ''tail.eif'' =
       Inl (TruncatedMetadata,
            Some \<lparr>contents = tail_image, fpos = 562, seek_max = 9223372036854775807,
                  calls = [Read 548, Lseek 548, Read 12, Read 3]\<rparr>)"
proof -
  have f: "files demo_machine ''tail.eif'' = Some tail_image"
    by (simp add: demo_machine_def)
  have l: "length tail_image = 548 + 12 + 2"
    by (simp add: tail_image_def length_examples)
  have p: "parse_eif_section_header (take 12 (drop 548 tail_image)) 12
         (stack_section_header demo_machine)
       = Inr \<lparr>section_type = 5, section_flags = 0, section_size = 2\<rparr>"
    by (simp add: parse_eif_section_header_in section_header_at_def be16_at_def be64_at_def
        tail_image_def length_examples)
  have "parse_eif_file demo_machine ''tail.eif'' =
       Inl (TruncatedMetadata,
            Some \<lparr>contents = tail_image, fpos = 562, seek_max = 9223372036854775807,
                  calls = [Read 548, Lseek 548, Read 12, Read 3]\<rparr>)"
    using l by (simp add: parse_eif_file_demo_machine [OF f] header_at_examples tail_walk)
  with l p show ?thesis by blast
qed

text \<open>
  C8. \<open>visit_section\<close> compares the value returned by \<open>lseek\<close>, taken as an unsigned
  64-bit number, with the requested offset. For the offset \<open>0xFFFFFFFFFFFFFFFF\<close> the call
  fails, returns \<open>-1\<close> and leaves the position at 548; the comparison finds the two equal,
  the 12 bytes at 548 are decoded as the section header, and the run succeeds.
\<close>

theorem failed_seek_to_all_ones_offset_passes_the_check:
  "section_offsets seek_header ! 0 = 18446744073709551615
   \<and> lseek (fd (opened seek_image)) (section_offsets seek_header ! 0)
       = (- 1, (fd (opened seek_image))\<lparr>calls := [Read 548, Lseek 18446744073709551615]\<rparr>)
   \<and> fpos (fd (opened seek_image)) = 548
   \<and> parse_eif_file demo_machine ''seek.eif'' = Inr (seek_header, seek_final, None)
   \<and> printed seek_final = [\<lparr>section_type = 1, section_flags = 0, section_size = 0\<rparr>]"
proof -
  have f: "files demo_machine ''seek.eif'' = Some seek_image"
    by (simp add: demo_machine_def)
  have l: "548 \<le> length seek_image"
    by (simp add: seek_image_def length_examples)
  have a: "section_offsets seek_header ! 0 = 18446744073709551615"
    by (simp add: seek_header_def)
  have b: "lseek (fd (opened seek_image)) (section_offsets seek_header ! 0)
       = (- 1, (fd (opened seek_image))\<lparr>calls := [Read 548, Lseek 18446744073709551615]\<rparr>)"
    by (simp add: a lseek_eq opened_def)
  have c: "fpos (fd (opened seek_image)) = 548"
    by (simp add: opened_def)
  have d: "parse_eif_file demo_machine ''seek.eif'' = Inr (seek_header, seek_final, None)"
    by (simp add: parse_eif_file_demo_machine [OF f l] header_at_examples seek_walk
        seek_final_def)
  have e: "printed seek_final = [\<lparr>section_type = 1, section_flags = 0, section_size = 0\<rparr>]"
    by (simp add: seek_final_def)
  from a b c d e show ?thesis by blast
qed

text \<open>
  C10. Take two sources that differ at most in the byte that follows the payload of a
  section of type 5, and two walks over them that succeed, such that in both walks no
  section visited before this one has type 5. The section is declared at an offset other
  than \<open>0xFFFFFFFFFFFFFFFF\<close> and its size is not \<open>0xFFFFFFFFFFFFFFFF\<close>: with this size
  \<open>section_size + 1\<close> is 0 and the null byte is stored outside the buffer. Then both
  walks retain the same metadata, and these end with a null byte.
\<close>

theorem retained_metadata_ignores_the_extra_byte:
  assumes wa: "walk_sections m h sa = Inr a" and wb: "walk_sections m h sb = Inr b"
    and wf: "wf_EifHeader h" and ba: "12 \<le> length (buf sa)" and bb: "12 \<le> length (buf sb)"
    and ma: "metadata sa = None" and mb: "metadata sb = None"
    and pa: "printed sa = []" and pb: "printed sb = []"
    and cb: "contents (fd sb) = (contents (fd sa))[P := v]"
    and i: "i < length (printed a)" and t: "section_type (printed a ! i) = 5"
    and f: "\<forall>j<i. section_type (printed a ! j) \<noteq> 5"
    and fb: "\<forall>j<i. section_type (printed b ! j) \<noteq> 5"
    and off: "section_offsets h ! i \<noteq> - 1"
    and sz: "section_size (printed a ! i) \<noteq> - 1"
    and P: "P = unat (section_offsets h ! i) + 12 + unat (section_size (printed a ! i))"
  shows "metadata b = metadata a \<and> (\<exists>x. metadata a = Some (x @ [0]))"
proof -
  from wa have c: "unat (section_cnt h) \<le> 32" and la: "section_loop m h 0 sa = Inr a"
    by (simp_all add: walk_sections_def MAX_SECTIONS_def split: if_splits)
  from wb have lb: "section_loop m h 0 sb = Inr b"
    by (simp_all add: walk_sections_def MAX_SECTIONS_def split: if_splits)
  have da: "printed a = printed sa @ printed a" and db: "printed b = printed sb @ printed b"
    using pa pb by simp_all
  from section_loop_printed [OF la wf c ba] section_loop_printed [OF lb wf c bb] pa pb
  have len: "length (printed b) = length (printed a)" by auto
  have ib: "i < length (printed b)" using i len by simp
  define n where "n = unat (section_size (printed a ! i))"
  define p where "p = unat (section_offsets h ! i)"
  have off0: "section_offsets h ! (0 + i) \<noteq> - 1" using off by simp
  have ha: "printed a ! i = section_header_at (take 12 (drop p (contents (fd sa))))"
    using section_loop_nth_printed [OF la wf c ba da i off0] by (simp add: p_def)
  have hb: "printed b ! i = section_header_at (take 12 (drop p (contents (fd sb))))"
    using section_loop_nth_printed [OF lb wf c bb db ib off0] by (simp add: p_def)
  have "take 12 (drop p (contents (fd sb))) = take 12 (drop p (contents (fd sa)))"
    unfolding cb P p_def [symmetric] by (rule take_drop_update_far) simp
  with ha hb have e: "printed b ! i = printed a ! i" by simp
  have tb: "section_type (printed b ! i) = 5" using t e by simp
  from walk_first_metadata [OF la ma wf c ba da i t f] off
  have ra: "metadata a = Some (take n (drop (p + 12) (contents (fd sa))) @ [0])"
    unfolding n_def p_def by blast
  from walk_first_metadata [OF lb mb wf c bb db ib tb fb] off
  have rb: "metadata b = Some (take n (drop (p + 12) (contents (fd sb))) @ [0])"
    unfolding n_def p_def e by blast
  have "take n (drop (p + 12) (contents (fd sb))) = take n (drop (p + 12) (contents (fd sa)))"
    unfolding cb P n_def [symmetric] p_def [symmetric]
    by (rule take_drop_update_far) simp
  with ra rb show ?thesis by simp
qed

theorem retained_metadata_ignores_the_extra_byte_witness:
  "walk_sections demo_machine demo_header (opened demo_image) = Inr demo_final
   \<and> walk_sections demo_machine demo_header (opened (demo_image[596 := 77])) = Inr demo_final_b
   \<and> contents (fd (opened (demo_image[596 := 77]))) = (contents (fd (opened demo_image)))[596 := 77]
   \<and> demo_image ! 596 \<noteq> 77
   \<and> section_type (printed demo_final ! 1) = 5
   \<and> section_type (printed demo_final ! 0) \<noteq> 5
   \<and> section_type (printed demo_final_b ! 0) \<noteq> 5
   \<and> section_offsets demo_header ! 1 \<noteq> - 1
   \<and> section_size (printed demo_final ! 1) \<noteq> - 1
   \<and> unat (section_offsets demo_header ! 1) + 12 + unat (section_size (printed demo_final ! 1))
       = 596
   \<and> metadata demo_final_b = metadata demo_final
   \<and> (\<exists>x. metadata demo_final = Some (x @ [0]))"
proof -
  have c: "contents (fd (opened (demo_image[596 := 77]))) = (contents (fd (opened demo_image)))[596 := 77]"
    by (simp add: opened_simps)
  have i: "1 < length (printed demo_final)" and t: "section_type (printed demo_final ! 1) = 5"
    and f: "\<forall>j<1. section_type (printed demo_final ! j) \<noteq> 5"
    and f0: "section_type (printed demo_final ! 0) \<noteq> 5"
    and sz: "section_size (printed demo_final ! 1) \<noteq> - 1"
    by (simp_all add: demo_final_def)
  have fb: "\<forall>j<1. section_type (printed demo_final_b ! j) \<noteq> 5"
    and fb0: "section_type (printed demo_final_b ! 0) \<noteq> 5"
    by (simp_all add: demo_final_b_def)
  have off: "section_offsets demo_header ! 1 \<noteq> - 1"
    by (simp add: demo_header_def)
  have P: "596 = unat (section_offsets demo_header ! 1) + 12
      + unat (section_size (printed demo_final ! 1))"
    by (simp add: demo_header_def demo_final_def)
  have d: "demo_image ! 596 \<noteq> 77"
    by (simp add: demo_image_def demo_body_def nth_append length_demo_bytes)
  from retained_metadata_ignores_the_extra_byte
    [OF demo_walk demo_walk_b wf_demo_header opened_simps(1) opened_simps(7) opened_simps(2)
      opened_simps(8) opened_simps(3) opened_simps(9) c i t f fb off sz P]
  have r: "metadata demo_final_b = metadata demo_final \<and> (\<exists>x. metadata demo_final = Some (x @ [0]))" .
  have P2: "unat (section_offsets demo_header ! 1) + 12
      + unat (section_size (printed demo_final ! 1)) = 596"
    by (simp add: demo_header_def demo_final_def)
  from demo_walk demo_walk_b c d t f0 fb0 off sz P2 r show ?thesis by blast
qed

text \<open>
  Without the condition on the sections visited before, the two walks may retain
  different metadata. In \<open>overlap_image\<close> the byte at 562 follows the payload of the
  section at 548, of type 5, and is also the low byte of the type of the section at 561,
  which is visited first. With the value 0 the section at 561 has type 0 and the walk
  retains the payload at 560; with the value 5 it has type 5 and the walk retains
  the payload at 573.
\<close>

theorem retained_metadata_changes_with_the_next_byte:
  "walk_sections demo_machine overlap_header (opened overlap_image) = Inr overlap_final_a
   \<and> walk_sections demo_machine overlap_header (opened (overlap_image[562 := 5]))
       = Inr overlap_final_b
   \<and> printed overlap_final_a ! 1 = \<lparr>section_type = 5, section_flags = 0, section_size = 2\<rparr>
   \<and> section_type (printed overlap_final_a ! 0) \<noteq> 5
   \<and> unat (section_offsets overlap_header ! 1) + 12
        + unat (section_size (printed overlap_final_a ! 1)) = 562
   \<and> metadata overlap_final_a = Some [104, 0, 0]
   \<and> metadata overlap_final_b = Some [120, 0]
   \<and> metadata_text [104, 0, 0] \<noteq> metadata_text [120, 0]"
proof -
  have "printed overlap_final_a ! 1 = \<lparr>section_type = 5, section_flags = 0, section_size = 2\<rparr>"
    "section_type (printed overlap_final_a ! 0) \<noteq> 5"
    "unat (section_offsets overlap_header ! 1) + 12
        + unat (section_size (printed overlap_final_a ! 1)) = 562"
    "metadata overlap_final_a = Some [104, 0, 0]"
    "metadata overlap_final_b = Some [120, 0]"
    "metadata_text [104, 0, 0] \<noteq> metadata_text [120, 0]"
    by (simp_all add: overlap_final_a_def overlap_final_b_def overlap_header_def
        metadata_text_def)
  with overlap_walk_a overlap_walk_b show ?thesis by blast
qed

end
